theory Spec2Isabelle
  imports Main "HOL-Library.Extended_Nat" "HOL-Library.Monad_Syntax"
begin

section \<open>Grid model\<close>

text \<open>
  A coordinate is the pair (row, col) of JavaScript numbers, here integers: the
  neighbour computation of the source produces row - 1 and col - 1 before it tests
  the bounds, so negative values occur. A cell carries the flags that
  createGridWithWalls gives it; the search algorithms read isWall only.
\<close>

type_synonym coord = "int \<times> int"

record cell =
  cell_row :: int
  cell_col :: int
  isWall :: bool
  isStart :: bool
  isEnd :: bool
  isVisited :: bool
  isPath :: bool
  isFrontier :: bool
  isCurrent :: bool

type_synonym grid = "cell list list"

text \<open>
  Two-dimensional arrays are lists of rows. A read or write outside the array is
  written out as the value None: in the source such an access either throws a
  TypeError (row out of range, or a missing cell whose isWall is read) or leaves
  the rectangular shape the algorithms rely on. Throughout, a result None of a
  model function means that the call does not return a value normally.
\<close>

definition read2 :: "'a list list \<Rightarrow> coord \<Rightarrow> 'a option" where
  "read2 a p =
     (if 0 \<le> fst p \<and> fst p < int (length a) \<and> 0 \<le> snd p \<and> snd p < int (length (a ! nat (fst p)))
      then Some (a ! nat (fst p) ! nat (snd p)) else None)"

definition write2 :: "'a list list \<Rightarrow> coord \<Rightarrow> 'a \<Rightarrow> 'a list list option" where
  "write2 a p v =
     (if 0 \<le> fst p \<and> fst p < int (length a) \<and> 0 \<le> snd p \<and> snd p < int (length (a ! nat (fst p)))
      then Some (a[nat (fst p) := (a ! nat (fst p))[nat (snd p) := v]]) else None)"

text \<open>Array(grid.length).fill().map(() => Array(grid[0].length).fill(v))\<close>

definition newArray2 :: "grid \<Rightarrow> 'a \<Rightarrow> 'a list list" where
  "newArray2 g v = replicate (length g) (replicate (length (hd g)) v)"

text \<open>The loop over a list whose body may fail: the first failure ends it.\<close>

fun forEach :: "('s \<Rightarrow> 'a \<Rightarrow> 's option) \<Rightarrow> 's \<Rightarrow> 'a list \<Rightarrow> 's option" where
  "forEach f st [] = Some st"
| "forEach f st (x # xs) = (case f st x of None \<Rightarrow> None | Some st' \<Rightarrow> forEach f st' xs)"

section \<open>PriorityQueue\<close>

text \<open>
  The queue object is its array \<open>values\<close> of entries {val, priority}, kept in
  ascending priority by a stable sort after every insertion. A queued node is
  represented by its coordinate: the cost and the back-reference that a Node object
  also carries are never read by the algorithms.
\<close>

type_synonym 'p pqueue = "(coord \<times> 'p) list"

definition pq_sort :: "('p::linorder) pqueue \<Rightarrow> 'p pqueue" where
  "pq_sort q = sort_key snd q"

definition enqueue :: "('p::linorder) pqueue \<Rightarrow> coord \<Rightarrow> 'p \<Rightarrow> 'p pqueue" where
  "enqueue q v priority = pq_sort (q @ [(v, priority)])"

text \<open>
  dequeue is Array.prototype.shift: on the empty array it returns undefined (here
  None) and leaves the array empty.
\<close>

fun dequeue :: "'p pqueue \<Rightarrow> (coord \<times> 'p) option \<times> 'p pqueue" where
  "dequeue [] = (None, [])"
| "dequeue (x # xs) = (Some x, xs)"

definition isEmpty :: "'p pqueue \<Rightarrow> bool" where
  "isEmpty q = (length q = 0)"

definition hasNode :: "'p pqueue \<Rightarrow> int \<Rightarrow> int \<Rightarrow> bool" where
  "hasNode q r c = list_ex (\<lambda>item. fst (fst item) = r \<and> snd (fst item) = c) q"

fun findIndex :: "('a \<Rightarrow> bool) \<Rightarrow> 'a list \<Rightarrow> nat option" where
  "findIndex P [] = None"
| "findIndex P (x # xs) = (if P x then Some 0 else map_option Suc (findIndex P xs))"

definition updatePriority :: "('p::linorder) pqueue \<Rightarrow> int \<Rightarrow> int \<Rightarrow> 'p \<Rightarrow> 'p pqueue" where
  "updatePriority q r c newPriority =
     (case findIndex (\<lambda>item. fst (fst item) = r \<and> snd (fst item) = c) q of
        None \<Rightarrow> q
      | Some i \<Rightarrow> pq_sort (q[i := (fst (q ! i), newPriority)]))"

section \<open>Neighbours, heuristic and path reconstruction\<close>

definition isValidPosition :: "int \<Rightarrow> int \<Rightarrow> grid \<Rightarrow> bool" where
  "isValidPosition r c g = (r \<ge> 0 \<and> r < int (length g) \<and> c \<ge> 0 \<and> c < int (length (hd g)))"

definition directions :: "coord list" where
  "directions = [(-1, 0), (1, 0), (0, -1), (0, 1)]"

definition getNeighbors :: "int \<Rightarrow> int \<Rightarrow> grid \<Rightarrow> coord list" where
  "getNeighbors r c g =
     filter (\<lambda>p. isValidPosition (fst p) (snd p) g)
       (map (\<lambda>d. (r + fst d, c + snd d)) directions)"

definition manhattanDistance :: "coord \<Rightarrow> coord \<Rightarrow> nat" where
  "manhattanDistance nodeOne nodeTwo =
     nat (\<bar>fst nodeOne - fst nodeTwo\<bar>) + nat (\<bar>snd nodeOne - snd nodeTwo\<bar>)"

text \<open>
  The backward walk of getNodesInShortestPathOrder: while currentNode is not null,
  put it at the front and move to its predecessor. On a cyclic predecessor map the
  source loops forever; the model then has no value (None).
\<close>

partial_function (option) walkBack ::
  "coord option list list \<Rightarrow> coord option \<Rightarrow> coord list \<Rightarrow> coord list option" where
  "walkBack previousNodes currentNode acc =
     (case currentNode of
        None \<Rightarrow> Some acc
      | Some c \<Rightarrow> Option.bind (read2 previousNodes c) (\<lambda>nxt. walkBack previousNodes nxt (c # acc)))"

declare walkBack.simps [code]

definition getNodesInShortestPathOrder :: "coord option list list \<Rightarrow> coord \<Rightarrow> coord list option" where
  "getNodesInShortestPathOrder previousNodes e =
     Option.bind (read2 previousNodes e)
       (\<lambda>currentNode. if currentNode = None then Some [] else walkBack previousNodes currentNode [])"

section \<open>Results and the shared input guard\<close>

record result =
  visitedNodesInOrder :: "coord list"
  shortestPath :: "coord list"

record dresult = result +
  distances :: "enat list list"

text \<open>
  if (!grid || !grid.length || !grid[0] || !grid[0].length || !start || !end).
  A null grid, start or end is None. A row of the grid is an array here, so the
  test !grid[0] (a first row that is not an array) has no instance in the model.
\<close>

definition invalidInput :: "grid option \<Rightarrow> coord option \<Rightarrow> coord option \<Rightarrow> bool" where
  "invalidInput g s e =
     (case g of
        None \<Rightarrow> True
      | Some rows \<Rightarrow> length rows = 0 \<or> length (hd rows) = 0 \<or> s = None \<or> e = None)"

definition emptyResult :: result where
  "emptyResult = \<lparr>visitedNodesInOrder = [], shortestPath = []\<rparr>"

definition emptyDResult :: dresult where
  "emptyDResult = \<lparr>visitedNodesInOrder = [], shortestPath = [], distances = []\<rparr>"

section \<open>Dijkstra\<close>

record dijkstra_state =
  d_order :: "coord list"
  d_unvisitedNodes :: "enat pqueue"
  d_distances :: "enat list list"
  d_previousNodes :: "coord option list list"
  d_visited :: "bool list list"

text \<open>The body of the loop over the neighbours of currentNode.\<close>

definition dijkstra_relax :: "grid \<Rightarrow> coord \<Rightarrow> dijkstra_state \<Rightarrow> coord \<Rightarrow> dijkstra_state option" where
  "dijkstra_relax g currentNode st nb =
     Option.bind (read2 (d_visited st) nb) (\<lambda>seen.
     if seen then Some st else
     Option.bind (read2 g nb) (\<lambda>cl.
     if isWall cl then Some st else
     Option.bind (read2 (d_distances st) currentNode) (\<lambda>dcur.
     let newDistance = dcur + 1 in
     Option.bind (read2 (d_distances st) nb) (\<lambda>dnb.
     if newDistance < dnb then
       Option.bind (write2 (d_distances st) nb newDistance) (\<lambda>distances'.
       Option.bind (write2 (d_previousNodes st) nb (Some currentNode)) (\<lambda>previous'.
       Some (st\<lparr>d_distances := distances', d_previousNodes := previous',
                 d_unvisitedNodes :=
                   (if hasNode (d_unvisitedNodes st) (fst nb) (snd nb)
                    then updatePriority (d_unvisitedNodes st) (fst nb) (snd nb) newDistance
                    else enqueue (d_unvisitedNodes st) nb newDistance)\<rparr>)))
     else Some st))))"

partial_function (option) dijkstra_loop ::
  "grid \<Rightarrow> coord \<Rightarrow> dijkstra_state \<Rightarrow> dijkstra_state option" where
  "dijkstra_loop g e st =
     (if isEmpty (d_unvisitedNodes st) then Some st
      else case dequeue (d_unvisitedNodes st) of
        (None, rest) \<Rightarrow> None
      | (Some item, rest) \<Rightarrow>
          (let currentNode = fst item in
           Option.bind (read2 (d_visited st) currentNode) (\<lambda>seen.
           if seen then dijkstra_loop g e (st\<lparr>d_unvisitedNodes := rest\<rparr>)
           else
             Option.bind (write2 (d_visited st) currentNode True) (\<lambda>visited'.
             let st1 = st\<lparr>d_unvisitedNodes := rest, d_visited := visited',
                           d_order := d_order st @ [currentNode]\<rparr> in
             if fst currentNode = fst e \<and> snd currentNode = snd e then Some st1
             else
               Option.bind
                 (forEach (dijkstra_relax g currentNode) st1
                    (getNeighbors (fst currentNode) (snd currentNode) g))
                 (dijkstra_loop g e)))))"

declare dijkstra_loop.simps [code]

definition dijkstra :: "grid option \<Rightarrow> coord option \<Rightarrow> coord option \<Rightarrow> dresult option" where
  "dijkstra grid start end =
     (if invalidInput grid start end then Some emptyDResult
      else
        let g = the grid; s = the start; e = the end in
        Option.bind (write2 (newArray2 g (\<infinity>::enat)) s 0) (\<lambda>distances0.
        Option.bind
          (dijkstra_loop g e
             \<lparr>d_order = [], d_unvisitedNodes = enqueue [] s 0, d_distances = distances0,
              d_previousNodes = newArray2 g None, d_visited = newArray2 g False\<rparr>)
          (\<lambda>st.
        Option.bind (getNodesInShortestPathOrder (d_previousNodes st) e) (\<lambda>path.
        Some \<lparr>visitedNodesInOrder = d_order st, shortestPath = path,
              distances = d_distances st\<rparr>))))"

section \<open>Breadth-first and depth-first search\<close>

record frontier_state =
  f_order :: "coord list"
  f_frontier :: "coord list"
  f_visited :: "bool list list"
  f_previousNodes :: "coord option list list"

text \<open>
  The body of the neighbour loop is the same in bfs and dfs: an unvisited non-wall
  neighbour is marked, gets currentNode as predecessor and is pushed at the end of
  the queue (bfs) or stack (dfs).
\<close>

definition frontier_discover :: "grid \<Rightarrow> coord \<Rightarrow> frontier_state \<Rightarrow> coord \<Rightarrow> frontier_state option" where
  "frontier_discover g currentNode st nb =
     Option.bind (read2 (f_visited st) nb) (\<lambda>seen.
     if seen then Some st else
     Option.bind (read2 g nb) (\<lambda>cl.
     if isWall cl then Some st else
     Option.bind (write2 (f_visited st) nb True) (\<lambda>visited'.
     Option.bind (write2 (f_previousNodes st) nb (Some currentNode)) (\<lambda>previous'.
     Some (st\<lparr>f_visited := visited', f_previousNodes := previous',
               f_frontier := f_frontier st @ [nb]\<rparr>)))))"

partial_function (option) bfs_loop ::
  "grid \<Rightarrow> coord \<Rightarrow> frontier_state \<Rightarrow> frontier_state option" where
  "bfs_loop g e st =
     (case f_frontier st of
        [] \<Rightarrow> Some st
      | currentNode # rest \<Rightarrow>
          (let st1 = st\<lparr>f_frontier := rest, f_order := f_order st @ [currentNode]\<rparr> in
           if fst currentNode = fst e \<and> snd currentNode = snd e then Some st1
           else
             Option.bind
               (forEach (frontier_discover g currentNode) st1
                  (getNeighbors (fst currentNode) (snd currentNode) g))
               (bfs_loop g e)))"

declare bfs_loop.simps [code]

partial_function (option) dfs_loop ::
  "grid \<Rightarrow> coord \<Rightarrow> frontier_state \<Rightarrow> frontier_state option" where
  "dfs_loop g e st =
     (if f_frontier st = [] then Some st
      else
        (let currentNode = last (f_frontier st);
             st1 = st\<lparr>f_frontier := butlast (f_frontier st),
                       f_order := f_order st @ [currentNode]\<rparr> in
         if fst currentNode = fst e \<and> snd currentNode = snd e then Some st1
         else
           Option.bind
             (forEach (frontier_discover g currentNode) st1
                (getNeighbors (fst currentNode) (snd currentNode) g))
             (dfs_loop g e)))"

declare dfs_loop.simps [code]

definition frontier_init :: "grid \<Rightarrow> coord \<Rightarrow> frontier_state option" where
  "frontier_init g s =
     Option.bind (write2 (newArray2 g False) s True) (\<lambda>visited0.
     Some \<lparr>f_order = [], f_frontier = [s], f_visited = visited0,
           f_previousNodes = newArray2 g None\<rparr>)"

definition frontier_result :: "coord \<Rightarrow> frontier_state \<Rightarrow> result option" where
  "frontier_result e st =
     Option.bind (getNodesInShortestPathOrder (f_previousNodes st) e) (\<lambda>path.
     Some \<lparr>visitedNodesInOrder = f_order st, shortestPath = path\<rparr>)"

definition bfs :: "grid option \<Rightarrow> coord option \<Rightarrow> coord option \<Rightarrow> result option" where
  "bfs grid start end =
     (if invalidInput grid start end then Some emptyResult
      else
        let g = the grid; s = the start; e = the end in
        Option.bind (frontier_init g s) (\<lambda>st0.
        Option.bind (bfs_loop g e st0) (frontier_result e)))"

definition dfs :: "grid option \<Rightarrow> coord option \<Rightarrow> coord option \<Rightarrow> result option" where
  "dfs grid start end =
     (if invalidInput grid start end then Some emptyResult
      else
        let g = the grid; s = the start; e = the end in
        Option.bind (frontier_init g s) (\<lambda>st0.
        Option.bind (dfs_loop g e st0) (frontier_result e)))"

section \<open>A* and greedy best-first search\<close>

record astar_state =
  a_order :: "coord list"
  a_openSet :: "enat pqueue"
  a_closedSet :: "coord set"
  a_gScore :: "enat list list"
  a_fScore :: "enat list list"
  a_previousNodes :: "coord option list list"

definition astar_relax :: "grid \<Rightarrow> coord \<Rightarrow> coord \<Rightarrow> astar_state \<Rightarrow> coord \<Rightarrow> astar_state option" where
  "astar_relax g e currentNode st nb =
     (if nb \<in> a_closedSet st then Some st else
      Option.bind (read2 g nb) (\<lambda>cl.
      if isWall cl then Some st else
      Option.bind (read2 (a_gScore st) currentNode) (\<lambda>gcur.
      let tentativeGScore = gcur + 1 in
      Option.bind (read2 (a_gScore st) nb) (\<lambda>gnb.
      if tentativeGScore < gnb then
        Option.bind (write2 (a_previousNodes st) nb (Some currentNode)) (\<lambda>previous'.
        Option.bind (write2 (a_gScore st) nb tentativeGScore) (\<lambda>gScore'.
        let f = tentativeGScore + enat (manhattanDistance nb e) in
        Option.bind (write2 (a_fScore st) nb f) (\<lambda>fScore'.
        Some (st\<lparr>a_previousNodes := previous', a_gScore := gScore', a_fScore := fScore',
                  a_openSet :=
                    (if \<not> hasNode (a_openSet st) (fst nb) (snd nb)
                     then enqueue (a_openSet st) nb f else a_openSet st)\<rparr>))))
      else Some st))))"

partial_function (option) astar_loop ::
  "grid \<Rightarrow> coord \<Rightarrow> astar_state \<Rightarrow> astar_state option" where
  "astar_loop g e st =
     (if isEmpty (a_openSet st) then Some st
      else case dequeue (a_openSet st) of
        (None, rest) \<Rightarrow> None
      | (Some item, rest) \<Rightarrow>
          (let currentNode = fst item in
           if fst currentNode = fst e \<and> snd currentNode = snd e
           then Some (st\<lparr>a_openSet := rest, a_order := a_order st @ [currentNode]\<rparr>)
           else
             Option.bind
               (forEach (astar_relax g e currentNode)
                  (st\<lparr>a_openSet := rest, a_closedSet := insert currentNode (a_closedSet st),
                      a_order := a_order st @ [currentNode]\<rparr>)
                  (getNeighbors (fst currentNode) (snd currentNode) g))
               (astar_loop g e)))"

declare astar_loop.simps [code]

definition astar :: "grid option \<Rightarrow> coord option \<Rightarrow> coord option \<Rightarrow> result option" where
  "astar grid start end =
     (if invalidInput grid start end then Some emptyResult
      else
        let g = the grid; s = the start; e = the end in
        Option.bind (write2 (newArray2 g (\<infinity>::enat)) s 0) (\<lambda>gScore0.
        Option.bind (write2 (newArray2 g (\<infinity>::enat)) s (enat (manhattanDistance s e))) (\<lambda>fScore0.
        Option.bind (read2 fScore0 s) (\<lambda>f0.
        Option.bind
          (astar_loop g e
             \<lparr>a_order = [], a_openSet = enqueue [] s f0, a_closedSet = {},
              a_gScore = gScore0, a_fScore = fScore0, a_previousNodes = newArray2 g None\<rparr>)
          (\<lambda>st.
        Option.bind (getNodesInShortestPathOrder (a_previousNodes st) e) (\<lambda>path.
        Some \<lparr>visitedNodesInOrder = a_order st, shortestPath = path\<rparr>))))))"

record greedy_state =
  g_order :: "coord list"
  g_openSet :: "nat pqueue"
  g_closedSet :: "coord set"
  g_previousNodes :: "coord option list list"

definition greedy_relax :: "grid \<Rightarrow> coord \<Rightarrow> coord \<Rightarrow> greedy_state \<Rightarrow> coord \<Rightarrow> greedy_state option" where
  "greedy_relax g e currentNode st nb =
     (if nb \<in> g_closedSet st then Some st else
      Option.bind (read2 g nb) (\<lambda>cl.
      if isWall cl then Some st else
      let heuristic = manhattanDistance nb e in
      Option.bind (write2 (g_previousNodes st) nb (Some currentNode)) (\<lambda>previous'.
      Some (st\<lparr>g_previousNodes := previous',
                g_openSet :=
                  (if \<not> hasNode (g_openSet st) (fst nb) (snd nb)
                   then enqueue (g_openSet st) nb heuristic else g_openSet st)\<rparr>))))"

partial_function (option) greedy_loop ::
  "grid \<Rightarrow> coord \<Rightarrow> greedy_state \<Rightarrow> greedy_state option" where
  "greedy_loop g e st =
     (if isEmpty (g_openSet st) then Some st
      else case dequeue (g_openSet st) of
        (None, rest) \<Rightarrow> None
      | (Some item, rest) \<Rightarrow>
          (let currentNode = fst item in
           if fst currentNode = fst e \<and> snd currentNode = snd e
           then Some (st\<lparr>g_openSet := rest, g_order := g_order st @ [currentNode]\<rparr>)
           else
             Option.bind
               (forEach (greedy_relax g e currentNode)
                  (st\<lparr>g_openSet := rest, g_closedSet := insert currentNode (g_closedSet st),
                      g_order := g_order st @ [currentNode]\<rparr>)
                  (getNeighbors (fst currentNode) (snd currentNode) g))
               (greedy_loop g e)))"

declare greedy_loop.simps [code]

definition greedy :: "grid option \<Rightarrow> coord option \<Rightarrow> coord option \<Rightarrow> result option" where
  "greedy grid start end =
     (if invalidInput grid start end then Some emptyResult
      else
        let g = the grid; s = the start; e = the end in
        Option.bind
          (greedy_loop g e
             \<lparr>g_order = [], g_openSet = enqueue [] s 0, g_closedSet = {},
              g_previousNodes = newArray2 g None\<rparr>)
          (\<lambda>st.
        Option.bind (getNodesInShortestPathOrder (g_previousNodes st) e) (\<lambda>path.
        Some \<lparr>visitedNodesInOrder = g_order st, shortestPath = path\<rparr>)))"

section \<open>Grids used in examples\<close>

text \<open>createGridWithWalls(rows, cols): every cell starts without a wall and unmarked.\<close>

definition mkCell :: "int \<Rightarrow> int \<Rightarrow> bool \<Rightarrow> cell" where
  "mkCell r c w = \<lparr>cell_row = r, cell_col = c, isWall = w, isStart = False, isEnd = False,
     isVisited = False, isPath = False, isFrontier = False, isCurrent = False\<rparr>"

definition createGridWithWalls :: "nat \<Rightarrow> nat \<Rightarrow> grid" where
  "createGridWithWalls rows cols =
     map (\<lambda>r. map (\<lambda>c. mkCell (int r) (int c) False) [0..<cols]) [0..<rows]"

text \<open>A grid given by its wall flags, row by row (what the user has drawn).\<close>

definition gridOf :: "bool list list \<Rightarrow> grid" where
  "gridOf ws =
     map (\<lambda>(r, row). map (\<lambda>(c, w). mkCell (int r) (int c) w) (List.enumerate 0 row))
       (List.enumerate 0 ws)"

section \<open>What the claims speak about\<close>

text \<open>
  A valid grid is rectangular with at least one row and one column. A coordinate is
  in bounds when isValidPosition accepts it.
\<close>

definition rectangular :: "grid \<Rightarrow> bool" where
  "rectangular g = (g \<noteq> [] \<and> hd g \<noteq> [] \<and> (\<forall>row \<in> set g. length row = length (hd g)))"

definition inBounds :: "grid \<Rightarrow> coord \<Rightarrow> bool" where
  "inBounds g p = isValidPosition (fst p) (snd p) g"

definition wallAt :: "grid \<Rightarrow> coord \<Rightarrow> bool" where
  "wallAt g p = isWall (g ! nat (fst p) ! nat (snd p))"

definition noWalls :: "grid \<Rightarrow> bool" where
  "noWalls g = (\<forall>row \<in> set g. \<forall>c \<in> set row. \<not> isWall c)"

text \<open>
  4-connected movement: one move goes to a cell at Manhattan distance 1 that lies in
  the grid and is not a wall. \<open>walk g u ws\<close> says that the cells ws can be entered
  one after the other starting from u; a route from s to e is a walk that ends in e,
  and its length is the number of moves.
\<close>

definition adjacent :: "coord \<Rightarrow> coord \<Rightarrow> bool" where
  "adjacent u w = (\<bar>fst u - fst w\<bar> + \<bar>snd u - snd w\<bar> = 1)"

definition move :: "grid \<Rightarrow> coord \<Rightarrow> coord \<Rightarrow> bool" where
  "move g u w = (adjacent u w \<and> inBounds g w \<and> \<not> wallAt g w)"

fun walk :: "grid \<Rightarrow> coord \<Rightarrow> coord list \<Rightarrow> bool" where
  "walk g u [] = True"
| "walk g u (w # ws) = (move g u w \<and> walk g w ws)"

definition route :: "grid \<Rightarrow> coord \<Rightarrow> coord list \<Rightarrow> coord \<Rightarrow> bool" where
  "route g s ws e = (walk g s ws \<and> last (s # ws) = e)"

definition reachable :: "grid \<Rightarrow> coord \<Rightarrow> coord \<Rightarrow> bool" where
  "reachable g s e = (\<exists>ws. route g s ws e)"


text \<open>
  \<open>everySearch g s e Q\<close>: each of the five algorithms, called with the grid g, the start
  s and the end e, returns a result, and Q holds of its visited order and of its path.
\<close>

definition everySearch ::
  "grid \<Rightarrow> coord \<Rightarrow> coord \<Rightarrow> (coord list \<Rightarrow> coord list \<Rightarrow> bool) \<Rightarrow> bool" where
  "everySearch g s e Q =
     ((\<exists>r. dijkstra (Some g) (Some s) (Some e) = Some r \<and> Q (visitedNodesInOrder r) (shortestPath r))
      \<and> (\<exists>r. bfs (Some g) (Some s) (Some e) = Some r \<and> Q (visitedNodesInOrder r) (shortestPath r))
      \<and> (\<exists>r. dfs (Some g) (Some s) (Some e) = Some r \<and> Q (visitedNodesInOrder r) (shortestPath r))
      \<and> (\<exists>r. astar (Some g) (Some s) (Some e) = Some r \<and> Q (visitedNodesInOrder r) (shortestPath r))
      \<and> (\<exists>r. greedy (Some g) (Some s) (Some e) = Some r \<and> Q (visitedNodesInOrder r) (shortestPath r)))"

text \<open>A grid on which the direct way down is blocked twice (used for claim C6).\<close>

definition detourGrid :: grid where
  "detourGrid = gridOf [[True, True, False, True], [False, False, False, False],
                        [False, True, True, False], [False, False, False, False],
                        [False, False, True, False], [False, False, False, False],
                        [False, True, True, True], [False, False, False, True]]"

text \<open>
  A state of astar in which the neighbour (0, 1) of the current node (0, 0) is queued
  with priority 5 and g-score 3.
\<close>

definition staleState :: astar_state where
  "staleState = \<lparr>a_order = [(0, 0)], a_openSet = [((0, 1), 5)], a_closedSet = {(0, 0)},
      a_gScore = [[0, 3]], a_fScore = [[1, 5]], a_previousNodes = [[None, None]]\<rparr>"


section \<open>Auxiliary notions for the proofs\<close>

text \<open>Shape of a two-dimensional array, and access inside its bounds.\<close>

definition dims :: "'a list list \<Rightarrow> nat \<Rightarrow> nat \<Rightarrow> bool" where
  "dims a R C = (length a = R \<and> (\<forall>row \<in> set a. length row = C))"

definition inb :: "nat \<Rightarrow> nat \<Rightarrow> coord \<Rightarrow> bool" where
  "inb R C p = (0 \<le> fst p \<and> fst p < int R \<and> 0 \<le> snd p \<and> snd p < int C)"

definition get2 :: "'a list list \<Rightarrow> coord \<Rightarrow> 'a" where
  "get2 a p = a ! nat (fst p) ! nat (snd p)"

definition upd2 :: "'a list list \<Rightarrow> coord \<Rightarrow> 'a \<Rightarrow> 'a list list" where
  "upd2 a p v = a[nat (fst p) := (a ! nat (fst p))[nat (snd p) := v]]"

text \<open>The predecessor recorded for a cell, if any.\<close>

definition predOf :: "coord option list list \<Rightarrow> coord \<Rightarrow> coord option" where
  "predOf a w = (case read2 a w of Some x \<Rightarrow> x | None \<Rightarrow> None)"

text \<open>
  \<open>pchain P w xs\<close>: following the predecessors of w ends in a cell without
  predecessor, and xs lists the cells passed, the last one found first. This is the
  list that the backward walk of getNodesInShortestPathOrder builds.
\<close>

inductive pchain :: "(coord \<Rightarrow> coord option) \<Rightarrow> coord \<Rightarrow> coord list \<Rightarrow> bool"
  for P :: "coord \<Rightarrow> coord option" where
  root: "P w = None \<Longrightarrow> pchain P w []"
| link: "P w = Some p \<Longrightarrow> pchain P p xs \<Longrightarrow> pchain P w (xs @ [p])"

text \<open>
  The invariant shared by the five searches, on the visited order vis, the set F of
  cells waiting in the frontier and the predecessor map P. The set ex holds the
  pairs (u, w) of an expanded cell u and a neighbour w that the running neighbour
  loop has not looked at yet.
\<close>

definition ginv ::
  "grid \<Rightarrow> coord \<Rightarrow> coord \<Rightarrow> (coord \<times> coord) set \<Rightarrow> coord list \<Rightarrow> coord set
     \<Rightarrow> (coord \<Rightarrow> coord option) \<Rightarrow> bool" where
  "ginv g s e ex vis F P =
     (distinct vis \<and> e \<notin> set vis \<and> inBounds g s \<and> (\<forall>w \<in> set vis \<union> F. inBounds g w)
      \<and> P s = None \<and> (if vis = [] then F = {s} else hd vis = s)
      \<and> (\<forall>w p. P w = Some p \<longrightarrow> p \<in> set vis \<and> move g p w \<and> w \<in> set vis \<union> F)
      \<and> (\<forall>w \<in> set vis \<union> F. w \<noteq> s \<longrightarrow> P w \<noteq> None)
      \<and> (\<forall>p \<in> set vis. \<exists>xs. pchain P p xs \<and> set xs \<subseteq> set vis)
      \<and> (\<forall>u \<in> set vis. \<forall>w. move g u w \<longrightarrow> (u, w) \<in> ex \<or> w \<in> set vis \<union> F))"

text \<open>
  What a finished search has established about its visited order vis and the list ys
  of predecessors found from e.
\<close>

definition gfinal :: "grid \<Rightarrow> coord \<Rightarrow> coord \<Rightarrow> coord list \<Rightarrow> coord list \<Rightarrow> bool" where
  "gfinal g s e vis ys =
     (vis \<noteq> [] \<and> hd vis = s \<and> distinct vis
      \<and> (\<forall>w \<in> set vis. inBounds g w \<and> reachable g s w)
      \<and> (e \<in> set vis \<longleftrightarrow> reachable g s e)
      \<and> (e \<in> set vis \<longrightarrow> last vis = e)
      \<and> set ys \<subseteq> set vis \<and> e \<notin> set ys \<and> distinct ys
      \<and> (ys \<noteq> [] \<longleftrightarrow> reachable g s e \<and> e \<noteq> s)
      \<and> (ys \<noteq> [] \<longrightarrow> (\<exists>ws. ys @ [e] = s # ws \<and> walk g s ws)))"

text \<open>
  The invariant of bfs and dfs on their state: the arrays have the shape of the grid,
  the frontier holds distinct cells that are not yet in the visited order, and the
  visited flags mark exactly the cells in the order or in the frontier.
\<close>

definition finv :: "grid \<Rightarrow> coord \<Rightarrow> coord \<Rightarrow> (coord \<times> coord) set \<Rightarrow> frontier_state \<Rightarrow> bool" where
  "finv g s e ex st =
     (rectangular g \<and> inBounds g e
      \<and> dims (f_visited st) (length g) (length (hd g))
      \<and> dims (f_previousNodes st) (length g) (length (hd g))
      \<and> ginv g s e ex (f_order st) (set (f_frontier st)) (predOf (f_previousNodes st))
      \<and> distinct (f_frontier st) \<and> set (f_frontier st) \<inter> set (f_order st) = {}
      \<and> (\<forall>w. inBounds g w \<longrightarrow> get2 (f_visited st) w = (w \<in> set (f_order st) \<union> set (f_frontier st))))"

text \<open>The state after frontier_discover has looked at the neighbour w of u.\<close>

definition discovered :: "grid \<Rightarrow> coord \<Rightarrow> frontier_state \<Rightarrow> coord \<Rightarrow> frontier_state" where
  "discovered g u st w =
     (if get2 (f_visited st) w \<or> wallAt g w then st
      else st\<lparr>f_visited := upd2 (f_visited st) w True,
              f_previousNodes := upd2 (f_previousNodes st) w (Some u),
              f_frontier := f_frontier st @ [w]\<rparr>)"

text \<open>
  The level order of a first-in first-out frontier Q. D gives for every discovered
  cell the number of predecessors behind it; the visited order followed by the queue
  is sorted by D, and no queued cell lies more than one level beyond the cell visited
  last.
\<close>

definition oinv ::
  "grid \<Rightarrow> (coord \<times> coord) set \<Rightarrow> coord list \<Rightarrow> coord list \<Rightarrow> (coord \<Rightarrow> coord option)
     \<Rightarrow> (coord \<Rightarrow> nat) \<Rightarrow> bool" where
  "oinv g ex vis Q P D =
     ((\<forall>w \<in> set vis \<union> set Q. \<exists>xs. pchain P w xs \<and> length xs = D w)
      \<and> (\<forall>v \<in> set vis. \<forall>w. move g v w \<longrightarrow> (v, w) \<in> ex \<or> (w \<in> set vis \<union> set Q \<and> D w \<le> D v + 1))
      \<and> sorted (map D (vis @ Q))
      \<and> (vis \<noteq> [] \<longrightarrow> (\<forall>w \<in> set Q. D w \<le> D (last vis) + 1)))"

text \<open>Every visited cell has a predecessor chain that is as long as some route from s and
  that no route from s undercuts.\<close>

definition shortest :: "grid \<Rightarrow> coord \<Rightarrow> coord list \<Rightarrow> (coord \<Rightarrow> coord option) \<Rightarrow> bool" where
  "shortest g s vis P =
     (\<forall>v \<in> set vis. \<exists>xs. pchain P v xs \<and> (\<exists>ws. route g s ws v \<and> length ws = length xs)
          \<and> (\<forall>ws. route g s ws v \<longrightarrow> length xs \<le> length ws))"

text \<open>
  The invariant of dijkstra on its state. The queue holds distinct cells that are not
  visited yet, each with its distance as priority; the distance of a discovered cell
  is its level D, and every other distance is still infinite.
\<close>

definition dinv ::
  "grid \<Rightarrow> coord \<Rightarrow> coord \<Rightarrow> (coord \<times> coord) set \<Rightarrow> dijkstra_state \<Rightarrow> (coord \<Rightarrow> nat) \<Rightarrow> bool" where
  "dinv g s e ex st D =
     (rectangular g \<and> inBounds g e
      \<and> dims (d_distances st) (length g) (length (hd g))
      \<and> dims (d_previousNodes st) (length g) (length (hd g))
      \<and> dims (d_visited st) (length g) (length (hd g))
      \<and> ginv g s e ex (d_order st) (set (map fst (d_unvisitedNodes st))) (predOf (d_previousNodes st))
      \<and> oinv g ex (d_order st) (map fst (d_unvisitedNodes st)) (predOf (d_previousNodes st)) D
      \<and> distinct (map fst (d_unvisitedNodes st))
      \<and> set (map fst (d_unvisitedNodes st)) \<inter> set (d_order st) = {}
      \<and> (\<forall>w. inBounds g w \<longrightarrow> get2 (d_visited st) w = (w \<in> set (d_order st)))
      \<and> (\<forall>w. inBounds g w \<longrightarrow> get2 (d_distances st) w =
            (if w \<in> set (d_order st) \<union> set (map fst (d_unvisitedNodes st)) then enat (D w) else \<infinity>))
      \<and> map snd (d_unvisitedNodes st) = map (\<lambda>w. enat (D w)) (map fst (d_unvisitedNodes st)))"

text \<open>The state after dijkstra has looked at the neighbour w of u.\<close>

definition relaxed :: "grid \<Rightarrow> coord \<Rightarrow> dijkstra_state \<Rightarrow> coord \<Rightarrow> dijkstra_state" where
  "relaxed g u st w =
     (if get2 (d_visited st) w \<or> wallAt g w then st
      else if get2 (d_distances st) u + 1 < get2 (d_distances st) w then
        st\<lparr>d_distances := upd2 (d_distances st) w (get2 (d_distances st) u + 1),
           d_previousNodes := upd2 (d_previousNodes st) w (Some u),
           d_unvisitedNodes :=
             (if hasNode (d_unvisitedNodes st) (fst w) (snd w)
              then updatePriority (d_unvisitedNodes st) (fst w) (snd w) (get2 (d_distances st) u + 1)
              else enqueue (d_unvisitedNodes st) w (get2 (d_distances st) u + 1))\<rparr>
      else st)"

text \<open>
  What dijkstra has established at the end about the visited cells: the distance
  stored for a visited cell is the length of its predecessor chain, and no route from
  s is shorter.
\<close>

definition dshort ::
  "grid \<Rightarrow> coord \<Rightarrow> coord list \<Rightarrow> (coord \<Rightarrow> coord option) \<Rightarrow> enat list list \<Rightarrow> bool" where
  "dshort g s vis P dists =
     (\<forall>v \<in> set vis. \<exists>xs. pchain P v xs \<and> get2 dists v = enat (length xs)
          \<and> (\<exists>ws. route g s ws v \<and> length ws = length xs)
          \<and> (\<forall>ws. route g s ws v \<longrightarrow> length xs \<le> length ws))"

text \<open>
  The invariant of astar on its state, in two parts. In ainv: the g-score of a
  discovered cell is the length of its predecessor chain. In ascore: a queued priority
  is never below the current f-score of its cell (it is above it after the g-score of a
  queued cell has improved); on a grid without walls every closed cell has the f-score
  of the start, and a queued cell that is nearer to e than all closed cells carries
  that f-score as its priority.
\<close>

definition ainv :: "grid \<Rightarrow> coord \<Rightarrow> coord \<Rightarrow> (coord \<times> coord) set \<Rightarrow> astar_state \<Rightarrow> bool" where
  "ainv g s e ex st =
     (rectangular g \<and> inBounds g e
      \<and> dims (a_gScore st) (length g) (length (hd g))
      \<and> dims (a_fScore st) (length g) (length (hd g))
      \<and> dims (a_previousNodes st) (length g) (length (hd g))
      \<and> ginv g s e ex (a_order st) (set (map fst (a_openSet st))) (predOf (a_previousNodes st))
      \<and> distinct (map fst (a_openSet st))
      \<and> set (map fst (a_openSet st)) \<inter> set (a_order st) = {}
      \<and> a_closedSet st = set (a_order st)
      \<and> (\<forall>w. inBounds g w \<longrightarrow>
            (get2 (a_gScore st) w \<noteq> \<infinity>) = (w \<in> set (a_order st) \<union> set (map fst (a_openSet st))))
      \<and> (\<forall>w \<in> set (a_order st) \<union> set (map fst (a_openSet st)).
            \<exists>xs. pchain (predOf (a_previousNodes st)) w xs \<and> get2 (a_gScore st) w = enat (length xs)))"

definition ascore :: "grid \<Rightarrow> coord \<Rightarrow> coord \<Rightarrow> astar_state \<Rightarrow> bool" where
  "ascore g s e st =
     (sorted (map snd (a_openSet st))
      \<and> (\<forall>x \<in> set (a_openSet st).
            get2 (a_gScore st) (fst x) + enat (manhattanDistance (fst x) e) \<le> snd x)
      \<and> (a_order st = [] \<longrightarrow> a_openSet st = [(s, enat (manhattanDistance s e))])
      \<and> (noWalls g \<longrightarrow>
            (\<forall>c \<in> set (a_order st).
               get2 (a_gScore st) c + enat (manhattanDistance c e) = enat (manhattanDistance s e))
            \<and> (\<forall>x \<in> set (a_openSet st).
                 (\<forall>c \<in> set (a_order st). manhattanDistance (fst x) e < manhattanDistance c e)
                   \<longrightarrow> snd x = enat (manhattanDistance s e))))"

text \<open>The state after astar has looked at the neighbour w of u.\<close>

definition arelaxed :: "grid \<Rightarrow> coord \<Rightarrow> coord \<Rightarrow> astar_state \<Rightarrow> coord \<Rightarrow> astar_state" where
  "arelaxed g e u st w =
     (if w \<in> a_closedSet st \<or> wallAt g w then st
      else if get2 (a_gScore st) u + 1 < get2 (a_gScore st) w then
        st\<lparr>a_previousNodes := upd2 (a_previousNodes st) w (Some u),
           a_gScore := upd2 (a_gScore st) w (get2 (a_gScore st) u + 1),
           a_fScore := upd2 (a_fScore st) w (get2 (a_gScore st) u + 1 + enat (manhattanDistance w e)),
           a_openSet :=
             (if \<not> hasNode (a_openSet st) (fst w) (snd w)
              then enqueue (a_openSet st) w (get2 (a_gScore st) u + 1 + enat (manhattanDistance w e))
              else a_openSet st)\<rparr>
      else st)"


text \<open>
  The invariant of greedy on its state, in two parts. In grinv: the open set holds
  distinct cells that are not closed, and the closed set is the visited order. In
  grscore: after the start has been taken out, every queued priority is the heuristic
  of its cell; on a grid without walls the cell visited last is nearer to e than every
  cell visited before it, and its predecessor chain and its heuristic add up to the
  heuristic of the start.
\<close>

definition grinv :: "grid \<Rightarrow> coord \<Rightarrow> coord \<Rightarrow> (coord \<times> coord) set \<Rightarrow> greedy_state \<Rightarrow> bool" where
  "grinv g s e ex st =
     (rectangular g \<and> inBounds g e
      \<and> dims (g_previousNodes st) (length g) (length (hd g))
      \<and> ginv g s e ex (g_order st) (set (map fst (g_openSet st))) (predOf (g_previousNodes st))
      \<and> distinct (map fst (g_openSet st))
      \<and> set (map fst (g_openSet st)) \<inter> set (g_order st) = {}
      \<and> g_closedSet st = set (g_order st))"

definition grscore :: "grid \<Rightarrow> coord \<Rightarrow> coord \<Rightarrow> greedy_state \<Rightarrow> bool" where
  "grscore g s e st =
     (sorted (map snd (g_openSet st))
      \<and> (g_order st = [] \<longrightarrow> g_openSet st = [(s, 0)])
      \<and> (g_order st \<noteq> [] \<longrightarrow> (\<forall>x \<in> set (g_openSet st). snd x = manhattanDistance (fst x) e))
      \<and> (noWalls g \<longrightarrow> g_order st \<noteq> [] \<longrightarrow>
            (\<forall>c \<in> set (butlast (g_order st)).
                manhattanDistance (last (g_order st)) e < manhattanDistance c e)
            \<and> (\<exists>xs. pchain (predOf (g_previousNodes st)) (last (g_order st)) xs
                 \<and> length xs + manhattanDistance (last (g_order st)) e = manhattanDistance s e)))"

text \<open>The state after greedy has looked at the neighbour w of u.\<close>

definition grelaxed :: "grid \<Rightarrow> coord \<Rightarrow> coord \<Rightarrow> greedy_state \<Rightarrow> coord \<Rightarrow> greedy_state" where
  "grelaxed g e u st w =
     (if w \<in> g_closedSet st \<or> wallAt g w then st
      else st\<lparr>g_previousNodes := upd2 (g_previousNodes st) w (Some u),
              g_openSet :=
                (if \<not> hasNode (g_openSet st) (fst w) (snd w)
                 then enqueue (g_openSet st) w (manhattanDistance w e)
                 else g_openSet st)\<rparr>)"

section \<open>Array accesses inside the bounds\<close>

lemma dims_row: "dims a R C \<Longrightarrow> inb R C p \<Longrightarrow> length (a ! nat (fst p)) = C"
  by (auto simp: dims_def inb_def)

lemma read2_dims: "dims a R C \<Longrightarrow> inb R C p \<Longrightarrow> read2 a p = Some (get2 a p)"
  using dims_row[of a R C p] by (auto simp: read2_def get2_def dims_def inb_def)

lemma read2_out: "dims a R C \<Longrightarrow> \<not> inb R C p \<Longrightarrow> read2 a p = None"
  by (auto simp: read2_def dims_def inb_def)

lemma write2_dims: "dims a R C \<Longrightarrow> inb R C p \<Longrightarrow> write2 a p v = Some (upd2 a p v)"
  using dims_row[of a R C p] by (auto simp: write2_def upd2_def dims_def inb_def)

lemma dims_upd2: "dims a R C \<Longrightarrow> dims (upd2 a p v) R C"
proof (cases "nat (fst p) < length a")
  case True
  assume d: "dims a R C"
  have "length (a ! nat (fst p)) = C" using d True by (simp add: dims_def)
  then show ?thesis using d True unfolding dims_def upd2_def
    by (auto simp: set_conv_nth nth_list_update)
next
  case False
  then show "dims a R C \<Longrightarrow> dims (upd2 a p v) R C" by (simp add: upd2_def list_update_beyond)
qed

lemma get2_upd2: "dims a R C \<Longrightarrow> inb R C p \<Longrightarrow> inb R C q \<Longrightarrow>
    get2 (upd2 a p v) q = (if q = p then v else get2 a q)"
  unfolding dims_def upd2_def get2_def inb_def
  by (cases p; cases q) (auto simp: nth_list_update)

lemma dims_newArray2: "dims (newArray2 g v) (length g) (length (hd g))"
  by (auto simp: dims_def newArray2_def)

lemma get2_newArray2: "inb (length g) (length (hd g)) p \<Longrightarrow> get2 (newArray2 g v) p = v"
  by (auto simp: get2_def newArray2_def inb_def)

lemma dims_rectangular: "rectangular g \<Longrightarrow> dims g (length g) (length (hd g))"
  unfolding dims_def rectangular_def by blast

lemma inBounds_inb: "inBounds g p = inb (length g) (length (hd g)) p"
  by (auto simp: inBounds_def isValidPosition_def inb_def)

section \<open>First iteration: start equal to end\<close>

lemma pq_sort_single [simp]: "pq_sort [x] = [x]" by (simp add: pq_sort_def)
lemma enqueue_empty [simp]: "enqueue [] v p = [(v, p)]" by (simp add: enqueue_def)

lemma valid_not_invalid:
  "g \<noteq> [] \<Longrightarrow> hd g \<noteq> [] \<Longrightarrow> \<not> invalidInput (Some g) (Some s) (Some e)"
  by (simp add: invalidInput_def)

lemma inBounds_nonempty: "inBounds g p \<Longrightarrow> g \<noteq> [] \<and> hd g \<noteq> []"
  by (auto simp: inBounds_def isValidPosition_def)

lemma read2_new: "inBounds g p \<Longrightarrow> read2 (newArray2 g v) p = Some v"
  by (simp add: read2_dims[OF dims_newArray2] get2_newArray2 inBounds_inb)

lemma write2_new: "inBounds g p \<Longrightarrow> write2 (newArray2 g v) p w = Some (upd2 (newArray2 g v) p w)"
  by (simp add: write2_dims[OF dims_newArray2] inBounds_inb)

lemma read2_upd2_new: "inBounds g p \<Longrightarrow> inBounds g q \<Longrightarrow>
   read2 (upd2 (newArray2 g v) p w) q = Some (if q = p then w else v)"
  using read2_dims[OF dims_upd2[OF dims_newArray2], of g q v p w]
        get2_upd2[OF dims_newArray2, of g p q v w]
  by (simp add: inBounds_inb get2_newArray2)

lemma getNodes_new: "inBounds g e \<Longrightarrow> getNodesInShortestPathOrder (newArray2 g None) e = Some []"
  by (simp add: getNodesInShortestPathOrder_def read2_new)

lemma dijkstra_same:
  assumes "inBounds g s"
  shows "dijkstra (Some g) (Some s) (Some s) =
     Some \<lparr>visitedNodesInOrder = [s], shortestPath = [],
           distances = upd2 (newArray2 g \<infinity>) s 0\<rparr>"
  using assms inBounds_nonempty[OF assms]
  apply (simp add: dijkstra_def valid_not_invalid write2_new)
  apply (subst dijkstra_loop.simps)
  apply (simp add: isEmpty_def read2_new write2_new getNodes_new)
  done

lemma bfs_same:
  assumes "inBounds g s"
  shows "bfs (Some g) (Some s) (Some s) = Some \<lparr>visitedNodesInOrder = [s], shortestPath = []\<rparr>"
  using assms inBounds_nonempty[OF assms]
  apply (simp add: bfs_def valid_not_invalid frontier_init_def write2_new)
  apply (subst bfs_loop.simps)
  apply (simp add: frontier_result_def getNodes_new)
  done

lemma dfs_same:
  assumes "inBounds g s"
  shows "dfs (Some g) (Some s) (Some s) = Some \<lparr>visitedNodesInOrder = [s], shortestPath = []\<rparr>"
  using assms inBounds_nonempty[OF assms]
  apply (simp add: dfs_def valid_not_invalid frontier_init_def write2_new)
  apply (subst dfs_loop.simps)
  apply (simp add: frontier_result_def getNodes_new)
  done

lemma astar_same:
  assumes "inBounds g s"
  shows "astar (Some g) (Some s) (Some s) = Some \<lparr>visitedNodesInOrder = [s], shortestPath = []\<rparr>"
  using assms inBounds_nonempty[OF assms]
  apply (simp add: astar_def valid_not_invalid write2_new read2_upd2_new)
  apply (subst astar_loop.simps)
  apply (simp add: isEmpty_def getNodes_new)
  done

lemma greedy_same:
  assumes "inBounds g s"
  shows "greedy (Some g) (Some s) (Some s) = Some \<lparr>visitedNodesInOrder = [s], shortestPath = []\<rparr>"
  using assms inBounds_nonempty[OF assms]
  apply (simp add: greedy_def valid_not_invalid)
  apply (subst greedy_loop.simps)
  apply (simp add: isEmpty_def getNodes_new)
  done

lemma write2_after_read2:
  assumes "read2 a p \<noteq> None"
  shows "\<exists>a'. write2 a p v = Some a' \<and> read2 a' p = Some v"
  using assms unfolding read2_def write2_def
  by (auto split: if_splits simp: nth_list_update)

section \<open>Neighbours and walks\<close>

lemma adjacent_cases:
  "adjacent (r, c) w \<longleftrightarrow> w = (r - 1, c) \<or> w = (r + 1, c) \<or> w = (r, c - 1) \<or> w = (r, c + 1)"
  by (cases w) (auto simp: adjacent_def)

lemma set_getNeighbors:
  "w \<in> set (getNeighbors r c g) \<longleftrightarrow> adjacent (r, c) w \<and> inBounds g w"
  unfolding getNeighbors_def directions_def inBounds_def adjacent_cases
  by (cases w) auto

lemma distinct_getNeighbors: "distinct (getNeighbors r c g)"
  unfolding getNeighbors_def directions_def by (auto intro!: distinct_filter)

lemma move_neighbor: "move g u w \<Longrightarrow> w \<in> set (getNeighbors (fst u) (snd u) g)"
  by (cases u) (simp add: move_def set_getNeighbors)

lemma walk_append: "walk g u (ws @ [w]) \<longleftrightarrow> walk g u ws \<and> move g (last (u # ws)) w"
  by (induction ws arbitrary: u) auto

lemma route_refl: "route g s [] s"
  by (simp add: route_def)

lemma reachable_refl: "reachable g s s"
  unfolding reachable_def using route_refl by blast

lemma reachable_step: "reachable g s u \<Longrightarrow> move g u w \<Longrightarrow> reachable g s w"
proof -
  assume "reachable g s u" and m: "move g u w"
  then obtain ws where "walk g s ws" "last (s # ws) = u"
    by (auto simp: reachable_def route_def)
  then have "route g s (ws @ [w]) w"
    using m by (simp add: route_def walk_append)
  then show ?thesis unfolding reachable_def by blast
qed

lemma md_int: "int (manhattanDistance u e) = \<bar>fst u - fst e\<bar> + \<bar>snd u - snd e\<bar>"
  by (simp add: manhattanDistance_def)

lemma manhattan_move: "adjacent u w \<Longrightarrow>
  manhattanDistance w e + 1 = manhattanDistance u e \<or> manhattanDistance w e = manhattanDistance u e + 1"
proof -
  assume a: "adjacent u w"
  obtain a b where u: "u = (a, b)" by (cases u)
  obtain x y where e: "e = (x, y)" by (cases e)
  from a have "w = (a - 1, b) \<or> w = (a + 1, b) \<or> w = (a, b - 1) \<or> w = (a, b + 1)"
    unfolding u adjacent_cases .
  then have "int (manhattanDistance w e) + 1 = int (manhattanDistance u e)
      \<or> int (manhattanDistance w e) = int (manhattanDistance u e) + 1"
    unfolding md_int u e by (elim disjE) (simp_all, linarith+)
  then show ?thesis by linarith
qed

lemma manhattan_move_le: "adjacent u w \<Longrightarrow> manhattanDistance u e \<le> manhattanDistance w e + 1"
  using manhattan_move[of u w e] by auto

lemma manhattan_sym: "manhattanDistance u w = manhattanDistance w u"
  unfolding manhattanDistance_def by (simp add: abs_minus_commute)

lemma manhattan_move_le': "adjacent u w \<Longrightarrow> manhattanDistance s w \<le> manhattanDistance s u + 1"
  using manhattan_move[of u w s] by (auto simp: manhattan_sym[of s])

lemma walk_manhattan: "walk g u ws \<Longrightarrow> manhattanDistance u (last (u # ws)) \<le> length ws"
proof (induction ws rule: rev_induct)
  case Nil
  then show ?case by (simp add: manhattanDistance_def)
next
  case (snoc w ws)
  then have w: "walk g u ws" and m: "move g (last (u # ws)) w" by (simp_all add: walk_append)
  have "manhattanDistance u w \<le> manhattanDistance u (last (u # ws)) + 1"
    using manhattan_move_le'[of "last (u # ws)" w u] m by (simp add: move_def)
  then show ?case using snoc.IH[OF w] by simp
qed

lemma route_manhattan: "route g s ws e \<Longrightarrow> manhattanDistance s e \<le> length ws"
  using walk_manhattan[of g s ws] by (auto simp: route_def)

lemma manhattan_triangle:
  "manhattanDistance s e \<le> manhattanDistance s w + manhattanDistance w e"
proof -
  have "int (manhattanDistance s e) \<le> int (manhattanDistance s w) + int (manhattanDistance w e)"
    unfolding md_int by linarith
  then show ?thesis by linarith
qed

lemma manhattan_zero: "manhattanDistance u e = 0 \<longleftrightarrow> u = e"
  by (cases u; cases e) (auto simp: manhattanDistance_def)

text \<open>In a grid without walls there is always a move that brings one closer to e.\<close>

lemma noWalls_wallAt: "rectangular g \<Longrightarrow> noWalls g \<Longrightarrow> inBounds g w \<Longrightarrow> \<not> wallAt g w"
  unfolding rectangular_def noWalls_def inBounds_def isValidPosition_def wallAt_def
  by (metis nat_less_iff nth_mem)

lemma closer_neighbor:
  assumes "inBounds g u" "inBounds g e" "u \<noteq> e"
  shows "\<exists>w. adjacent u w \<and> inBounds g w \<and> manhattanDistance w e + 1 = manhattanDistance u e"
proof -
  obtain r c where u: "u = (r, c)" by (cases u)
  obtain r' c' where e: "e = (r', c')" by (cases e)
  have b: "0 \<le> r" "r < int (length g)" "0 \<le> c" "c < int (length (hd g))"
      "0 \<le> r'" "r' < int (length g)" "0 \<le> c'" "c' < int (length (hd g))"
    using assms(1,2) u e by (simp_all add: inBounds_def isValidPosition_def)
  consider "r < r'" | "r' < r" | "r = r'" "c < c'" | "r = r'" "c' < c"
    using assms(3) u e by fastforce
  then show ?thesis
  proof cases
    case 1
    have "nat \<bar>r + 1 - r'\<bar> + 1 = nat \<bar>r - r'\<bar>" using 1 by arith
    then have "adjacent u (r + 1, c) \<and> inBounds g (r + 1, c)
        \<and> manhattanDistance (r + 1, c) e + 1 = manhattanDistance u e"
      using 1 b by (simp add: u e adjacent_def inBounds_def isValidPosition_def manhattanDistance_def)
    then show ?thesis by blast
  next
    case 2
    have "nat \<bar>r - 1 - r'\<bar> + 1 = nat \<bar>r - r'\<bar>" using 2 by arith
    then have "adjacent u (r - 1, c) \<and> inBounds g (r - 1, c)
        \<and> manhattanDistance (r - 1, c) e + 1 = manhattanDistance u e"
      using 2 b by (simp add: u e adjacent_def inBounds_def isValidPosition_def manhattanDistance_def)
    then show ?thesis by blast
  next
    case 3
    have "nat \<bar>c + 1 - c'\<bar> + 1 = nat \<bar>c - c'\<bar>" using 3 by arith
    then have "adjacent u (r, c + 1) \<and> inBounds g (r, c + 1)
        \<and> manhattanDistance (r, c + 1) e + 1 = manhattanDistance u e"
      using 3 b by (simp add: u e adjacent_def inBounds_def isValidPosition_def manhattanDistance_def)
    then show ?thesis by blast
  next
    case 4
    have "nat \<bar>c - 1 - c'\<bar> + 1 = nat \<bar>c - c'\<bar>" using 4 by arith
    then have "adjacent u (r, c - 1) \<and> inBounds g (r, c - 1)
        \<and> manhattanDistance (r, c - 1) e + 1 = manhattanDistance u e"
      using 4 b by (simp add: u e adjacent_def inBounds_def isValidPosition_def manhattanDistance_def)
    then show ?thesis by blast
  qed
qed

lemma noWalls_route:
  assumes "rectangular g" "noWalls g" "inBounds g e"
  shows "inBounds g u \<Longrightarrow> manhattanDistance u e = n \<Longrightarrow> \<exists>ws. route g u ws e \<and> length ws = n"
proof (induction n arbitrary: u)
  case 0
  then have "u = e" by (simp add: manhattan_zero)
  then show ?case using route_refl by auto
next
  case (Suc n)
  then have "u \<noteq> e" using manhattan_zero[of u e] by auto
  then obtain w where w: "adjacent u w" "inBounds g w" "manhattanDistance w e + 1 = manhattanDistance u e"
    using closer_neighbor[OF Suc.prems(1) assms(3)] by blast
  then have "manhattanDistance w e = n" using Suc.prems by simp
  then obtain ws where ws: "route g w ws e" "length ws = n" using Suc.IH[OF w(2)] by blast
  have "move g u w" using w noWalls_wallAt[OF assms(1,2) w(2)] by (simp add: move_def)
  then have "route g u (w # ws) e" using ws by (simp add: route_def)
  then show ?case using ws by (intro exI[of _ "w # ws"]) simp
qed

section \<open>Predecessor chains\<close>

lemma pchain_cong:
  "pchain P w xs \<Longrightarrow> (\<forall>x \<in> insert w (set xs). P' x = P x) \<Longrightarrow> pchain P' w xs"
proof (induction rule: pchain.induct)
  case (root w)
  then show ?case by (simp add: pchain.root)
next
  case (link w p xs)
  then show ?case by (auto intro: pchain.link)
qed

lemma pchain_fun: "pchain P w xs \<Longrightarrow> pchain P w ys \<Longrightarrow> xs = ys"
proof (induction arbitrary: ys rule: pchain.induct)
  case (root w)
  then show ?case by (auto elim: pchain.cases)
next
  case (link w p xs)
  from link.prems link.hyps(1) obtain zs where "ys = zs @ [p]" "pchain P p zs"
    by (auto elim: pchain.cases)
  then show ?case using link.IH by simp
qed

lemma pchain_walk:
  assumes mv: "\<forall>w p. P w = Some p \<longrightarrow> move g p w"
  shows "pchain P w xs \<Longrightarrow> (\<forall>x \<in> insert w (set xs). P x = None \<longrightarrow> x = s)
     \<Longrightarrow> \<exists>ws. xs @ [w] = s # ws \<and> walk g s ws"
proof (induction rule: pchain.induct)
  case (root w)
  then show ?case by simp
next
  case (link w p xs)
  have "\<forall>x \<in> insert p (set xs). P x = None \<longrightarrow> x = s" using link.prems by simp
  from link.IH[OF this] obtain ws where ws: "xs @ [p] = s # ws" "walk g s ws" by blast
  have "last (s # ws) = last (xs @ [p])" using ws(1) by simp
  then have "last (s # ws) = p" by simp
  moreover have "move g p w" using mv link.hyps(1) by blast
  ultimately have "walk g s (ws @ [w])" using ws(2) by (simp add: walk_append del: last.simps)
  then show ?case using ws(1) by simp
qed

lemma walkBack_None: "walkBack a None acc = Some acc"
  by (subst walkBack.simps) simp

lemma walkBack_chain:
  assumes d: "dims a R C"
  shows "pchain (predOf a) c xs \<Longrightarrow> (\<forall>x \<in> insert c (set xs). inb R C x)
    \<Longrightarrow> walkBack a (Some c) acc = Some (xs @ c # acc)"
proof (induction arbitrary: acc rule: pchain.induct)
  case (root w)
  then have "read2 a w = Some None"
    using read2_dims[OF d, of w] by (auto simp: predOf_def)
  then show ?case by (subst walkBack.simps) (simp add: walkBack_None)
next
  case (link w p xs)
  then have "read2 a w = Some (Some p)"
    using read2_dims[OF d, of w] by (auto simp: predOf_def)
  then show ?case using link by (subst walkBack.simps) simp
qed

lemma getNodes_chain:
  assumes d: "dims a R C" and c: "pchain (predOf a) e ys" and i: "\<forall>x \<in> insert e (set ys). inb R C x"
  shows "getNodesInShortestPathOrder a e = Some ys"
  using c
proof (cases rule: pchain.cases)
  case root
  then have "read2 a e = Some None" using read2_dims[OF d, of e] i by (auto simp: predOf_def)
  then show ?thesis using root by (simp add: getNodesInShortestPathOrder_def)
next
  case (link p xs)
  then have r: "read2 a e = Some (Some p)" using read2_dims[OF d, of e] i by (auto simp: predOf_def)
  have "walkBack a (Some p) [] = Some (xs @ [p])"
    using walkBack_chain[OF d link(3), of "[]"] i link(1) by auto
  then show ?thesis using r link(1) by (simp add: getNodesInShortestPathOrder_def)
qed

lemma predOf_upd2:
  "dims a R C \<Longrightarrow> inb R C w \<Longrightarrow> predOf (upd2 a w v) = (predOf a)(w := v)"
proof (rule ext)
  fix x assume d: "dims a R C" and i: "inb R C w"
  show "predOf (upd2 a w v) x = ((predOf a)(w := v)) x"
  proof (cases "inb R C x")
    case True
    then show ?thesis
      using read2_dims[OF dims_upd2[OF d], of x w v] read2_dims[OF d True] get2_upd2[OF d i True, of v]
      by (simp add: predOf_def)
  next
    case False
    then have "x \<noteq> w" using i by auto
    then show ?thesis
      using read2_out[OF dims_upd2[OF d] False, of w v] read2_out[OF d False]
      by (simp add: predOf_def)
  qed
qed

lemma predOf_new: "predOf (newArray2 g (None :: coord option)) = (\<lambda>_. None)"
proof (rule ext)
  fix x show "predOf (newArray2 g (None :: coord option)) x = None"
    using read2_dims[OF dims_newArray2, of g x "None :: coord option"] read2_out[OF dims_newArray2, of g x "None :: coord option"]
      get2_newArray2[of g x "None :: coord option"]
    by (cases "inb (length g) (length (hd g)) x") (auto simp: predOf_def)
qed

text \<open>A predecessor chain never meets a cell twice.\<close>

lemma pchain_shorter:
  "pchain P w xs \<Longrightarrow> x \<in> set xs \<Longrightarrow> \<exists>zs. pchain P x zs \<and> length zs < length xs"
proof (induction rule: pchain.induct)
  case (root w)
  then show ?case by simp
next
  case (link w p xs)
  show ?case
  proof (cases "x = p")
    case True
    then show ?thesis using link.hyps(2) by auto
  next
    case False
    then have "x \<in> set xs" using link.prems by simp
    then obtain zs where "pchain P x zs" "length zs < length xs" using link.IH by blast
    then show ?thesis by auto
  qed
qed

lemma pchain_distinct: "pchain P w xs \<Longrightarrow> distinct xs \<and> w \<notin> set xs"
proof (induction rule: pchain.induct)
  case (root w)
  then show ?case by simp
next
  case (link w p xs)
  have c: "pchain P w (xs @ [p])" using pchain.link[OF link.hyps(1,2)] .
  have "w \<notin> set (xs @ [p])"
  proof
    assume "w \<in> set (xs @ [p])"
    then obtain zs where zs: "pchain P w zs" "length zs < length (xs @ [p])"
      using pchain_shorter[OF c] by blast
    have "zs = xs @ [p]" using pchain_fun[OF zs(1) c] .
    then show False using zs(2) by simp
  qed
  then show ?case using link.IH by simp
qed

section \<open>The shared search invariant\<close>

lemma ginvD:
  assumes "ginv g s e ex vis F P"
  shows "distinct vis" and "e \<notin> set vis" and "inBounds g s"
    and "\<And>w. w \<in> set vis \<union> F \<Longrightarrow> inBounds g w"
    and "P s = None" and "vis = [] \<Longrightarrow> F = {s}" and "vis \<noteq> [] \<Longrightarrow> hd vis = s"
    and "\<And>w p. P w = Some p \<Longrightarrow> p \<in> set vis \<and> move g p w \<and> w \<in> set vis \<union> F"
    and "\<And>w. w \<in> set vis \<union> F \<Longrightarrow> w \<noteq> s \<Longrightarrow> P w \<noteq> None"
    and "\<And>p. p \<in> set vis \<Longrightarrow> \<exists>xs. pchain P p xs \<and> set xs \<subseteq> set vis"
    and "\<And>u w. u \<in> set vis \<Longrightarrow> move g u w \<Longrightarrow> (u, w) \<in> ex \<or> w \<in> set vis \<union> F"
  using assms unfolding ginv_def by (blast | meson)+

lemma ginvI:
  assumes "distinct vis" and "e \<notin> set vis" and "inBounds g s"
    and "\<And>w. w \<in> set vis \<union> F \<Longrightarrow> inBounds g w"
    and "P s = None" and "vis = [] \<Longrightarrow> F = {s}" and "vis \<noteq> [] \<Longrightarrow> hd vis = s"
    and "\<And>w p. P w = Some p \<Longrightarrow> p \<in> set vis \<and> move g p w \<and> w \<in> set vis \<union> F"
    and "\<And>w. w \<in> set vis \<union> F \<Longrightarrow> w \<noteq> s \<Longrightarrow> P w \<noteq> None"
    and "\<And>p. p \<in> set vis \<Longrightarrow> \<exists>xs. pchain P p xs \<and> set xs \<subseteq> set vis"
    and "\<And>u w. u \<in> set vis \<Longrightarrow> move g u w \<Longrightarrow> (u, w) \<in> ex \<or> w \<in> set vis \<union> F"
  shows "ginv g s e ex vis F P"
  unfolding ginv_def
  apply (intro conjI ballI allI impI)
  using assms apply simp_all
  done

lemma ginv_start_vis: "ginv g s e ex vis F P \<Longrightarrow> vis \<noteq> [] \<Longrightarrow> s \<in> set vis"
  using ginvD(7)[of g s e ex vis F P] hd_in_set[of vis] by auto


lemma ginv_pop:
  assumes I: "ginv g s e {} vis F P"
    and u: "u \<in> F" "u \<notin> set vis" "u \<noteq> e"
    and F1: "F1 \<subseteq> F" "F \<subseteq> insert u F1"
    and ex: "\<And>w. move g u w \<Longrightarrow> (u, w) \<in> ex"
  shows "ginv g s e ex (vis @ [u]) F1 P"
proof (rule ginvI)
  note D = ginvD[OF I]
  show "distinct (vis @ [u])" using D(1) u(2) by simp
  show "e \<notin> set (vis @ [u])" using D(2) u(3) by simp
  show "inBounds g s" by (rule D(3))
  show "inBounds g w" if "w \<in> set (vis @ [u]) \<union> F1" for w
    using that D(4)[of w] D(4)[of u] u(1) F1(1) by auto
  show "P s = None" by (rule D(5))
  show "F1 = {s}" if "vis @ [u] = []" using that by simp
  show "hd (vis @ [u]) = s" if "vis @ [u] \<noteq> []"
  proof (cases "vis = []")
    case True
    then have "u = s" using D(6) u(1) by simp
    then show ?thesis using True by simp
  next
    case False
    then show ?thesis using D(7) by simp
  qed
  show "p \<in> set (vis @ [u]) \<and> move g p w \<and> w \<in> set (vis @ [u]) \<union> F1" if "P w = Some p" for w p
    using D(8)[OF that] F1(2) by auto
  show "P w \<noteq> None" if "w \<in> set (vis @ [u]) \<union> F1" "w \<noteq> s" for w
    using that D(9)[of w] u(1) F1(1) by auto
  show "\<exists>xs. pchain P p xs \<and> set xs \<subseteq> set (vis @ [u])" if "p \<in> set (vis @ [u])" for p
  proof (cases "p \<in> set vis")
    case True
    then show ?thesis using D(10)[of p] by auto
  next
    case False
    then have pu: "p = u" using that by simp
    show ?thesis
    proof (cases "P u")
      case None
      then show ?thesis using pu pchain.root[of P u] by auto
    next
      case (Some q)
      then have "q \<in> set vis" using D(8)[of u q] by simp
      then obtain xs where "pchain P q xs" "set xs \<subseteq> set vis" using D(10)[of q] by blast
      then have "pchain P u (xs @ [q]) \<and> set (xs @ [q]) \<subseteq> set (vis @ [u])"
        using Some \<open>q \<in> set vis\<close> pchain.link[of P u q xs] by auto
      then show ?thesis using pu by blast
    qed
  qed
  show "(v, w) \<in> ex \<or> w \<in> set (vis @ [u]) \<union> F1" if "v \<in> set (vis @ [u])" "move g v w" for v w
  proof (cases "v \<in> set vis")
    case True
    then have "w \<in> set vis \<union> F" using D(11)[OF True that(2)] by simp
    then show ?thesis using F1(2) by auto
  next
    case False
    then have "v = u" using that(1) by simp
    then show ?thesis using ex that(2) by simp
  qed
qed

lemma ginv_add:
  assumes I: "ginv g s e (insert (u, w) ex) vis F P"
    and u: "u \<in> set vis" and m: "move g u w" and w: "w \<notin> set vis"
  shows "ginv g s e ex vis (insert w F) (P(w := Some u))"
proof (rule ginvI)
  note D = ginvD[OF I]
  have ne: "vis \<noteq> []" using u by auto
  have ws: "w \<noteq> s" using ginv_start_vis[OF I ne] w by auto
  show "distinct vis" by (rule D(1))
  show "e \<notin> set vis" by (rule D(2))
  show "inBounds g s" by (rule D(3))
  show "inBounds g x" if "x \<in> set vis \<union> insert w F" for x
    using that D(4)[of x] m by (auto simp: move_def)
  show "(P(w := Some u)) s = None" using D(5) ws by simp
  show "insert w F = {s}" if "vis = []" using that ne by simp
  show "hd vis = s" if "vis \<noteq> []" using D(7) that by simp
  show "p \<in> set vis \<and> move g p x \<and> x \<in> set vis \<union> insert w F"
    if "(P(w := Some u)) x = Some p" for x p
  proof (cases "x = w")
    case True
    then show ?thesis using that u m by simp
  next
    case False
    then show ?thesis using that D(8)[of x p] by auto
  qed
  show "(P(w := Some u)) x \<noteq> None" if "x \<in> set vis \<union> insert w F" "x \<noteq> s" for x
    using that D(9)[of x] by auto
  show "\<exists>xs. pchain (P(w := Some u)) p xs \<and> set xs \<subseteq> set vis" if pv: "p \<in> set vis" for p
  proof -
    obtain xs where xs: "pchain P p xs" "set xs \<subseteq> set vis" using D(10)[OF pv] by blast
    have "\<forall>x \<in> insert p (set xs). (P(w := Some u)) x = P x" using xs(2) pv w by auto
    then show ?thesis using pchain_cong[OF xs(1)] xs(2) by blast
  qed
  show "(v, x) \<in> ex \<or> x \<in> set vis \<union> insert w F" if "v \<in> set vis" "move g v x" for v x
    using D(11)[OF that] by auto
qed

lemma ginv_skip:
  assumes I: "ginv g s e (insert (u, w) ex) vis F P"
    and n: "\<not> move g u w \<or> w \<in> set vis \<union> F"
  shows "ginv g s e ex vis F P"
proof (rule ginvI)
  note D = ginvD[OF I]
  show "(v, x) \<in> ex \<or> x \<in> set vis \<union> F" if "v \<in> set vis" "move g v x" for v x
    using D(11)[OF that] n that(2) by auto
qed (use ginvD[OF I] in auto)

lemma ginv_chain_route:
  assumes I: "ginv g s e ex vis F P" and p: "p \<in> set vis"
  shows "\<exists>xs ws. pchain P p xs \<and> set xs \<subseteq> set vis \<and> xs @ [p] = s # ws \<and> walk g s ws"
proof -
  note D = ginvD[OF I]
  obtain xs where xs: "pchain P p xs" "set xs \<subseteq> set vis" using D(10)[OF p] by blast
  have mv: "\<forall>w q. P w = Some q \<longrightarrow> move g q w" using D(8) by blast
  have rt: "\<forall>x \<in> insert p (set xs). P x = None \<longrightarrow> x = s"
    using D(9) xs(2) p by blast
  from pchain_walk[OF mv xs(1) rt] xs show ?thesis by blast
qed

lemma ginv_front_route:
  assumes I: "ginv g s e ex vis F P" and w: "w \<in> F"
  shows "\<exists>xs ws. pchain P w xs \<and> set xs \<subseteq> set vis \<and> xs @ [w] = s # ws \<and> walk g s ws
           \<and> (xs = [] \<longleftrightarrow> w = s)"
proof (cases "w = s")
  case True
  have "pchain P s []" using ginvD(5)[OF I] by (rule pchain.root)
  then show ?thesis using True by auto
next
  case False
  note D = ginvD[OF I]
  obtain p where p: "P w = Some p" using D(9)[of w] w False by auto
  then have pv: "p \<in> set vis" and m: "move g p w" using D(8)[OF p] by auto
  obtain xs ws where c: "pchain P p xs" "set xs \<subseteq> set vis" "xs @ [p] = s # ws" "walk g s ws"
    using ginv_chain_route[OF I pv] by blast
  have "last (s # ws) = last (xs @ [p])" using c(3) by simp
  then have l: "last (s # ws) = p" by simp
  have "walk g s (ws @ [w])" using c(4) m l by (simp add: walk_append del: last.simps)
  moreover have "pchain P w (xs @ [p])" using p c(1) by (rule pchain.link)
  moreover have "(xs @ [p]) @ [w] = s # (ws @ [w])" using c(3) by simp
  moreover have "set (xs @ [p]) \<subseteq> set vis" using c(2) pv by simp
  ultimately show ?thesis using False by blast
qed

lemma route_of_chain: "xs @ [p] = s # ws \<Longrightarrow> walk g s ws \<Longrightarrow> reachable g s p"
proof -
  assume a: "xs @ [p] = s # ws" and w: "walk g s ws"
  have "last (s # ws) = last (xs @ [p])" using a by simp
  then have "last (s # ws) = p" by simp
  then show ?thesis using w unfolding reachable_def route_def by blast
qed

lemma ginv_vis_reachable: "ginv g s e ex vis F P \<Longrightarrow> p \<in> set vis \<Longrightarrow> reachable g s p"
  using ginv_chain_route[of g s e ex vis F P p] route_of_chain[of _ p s _ g] by blast

lemma ginv_break:
  assumes I: "ginv g s e {} vis F P" and e: "e \<in> F"
  shows "\<exists>ys. pchain P e ys \<and> gfinal g s e (vis @ [e]) ys"
proof -
  note D = ginvD[OF I]
  obtain ys ws where c: "pchain P e ys" "set ys \<subseteq> set vis" "ys @ [e] = s # ws" "walk g s ws"
      "ys = [] \<longleftrightarrow> e = s"
    using ginv_front_route[OF I e] by blast
  have re: "reachable g s e" using route_of_chain[OF c(3,4)] .
  have hd: "hd (vis @ [e]) = s"
  proof (cases "vis = []")
    case True
    then show ?thesis using D(6) e by simp
  next
    case False
    then show ?thesis using D(7) by simp
  qed
  have "gfinal g s e (vis @ [e]) ys"
    unfolding gfinal_def
  proof (intro conjI)
    show "vis @ [e] \<noteq> []" by simp
    show "hd (vis @ [e]) = s" by (rule hd)
    show "distinct (vis @ [e])" using D(1,2) by simp
    show "\<forall>w\<in>set (vis @ [e]). inBounds g w \<and> reachable g s w"
      using D(4) e re ginv_vis_reachable[OF I] by auto
    show "(e \<in> set (vis @ [e])) = reachable g s e" using re by simp
    show "e \<in> set (vis @ [e]) \<longrightarrow> last (vis @ [e]) = e" by simp
    show "set ys \<subseteq> set (vis @ [e])" using c(2) by auto
    show "e \<notin> set ys" using c(2) D(2) by auto
    show "distinct ys" using pchain_distinct[OF c(1)] by simp
    show "(ys \<noteq> []) = (reachable g s e \<and> e \<noteq> s)" using c(5) re by simp
    show "ys \<noteq> [] \<longrightarrow> (\<exists>ws. ys @ [e] = s # ws \<and> walk g s ws)" using c(3,4) by blast
  qed
  then show ?thesis using c(1) by blast
qed

lemma ginv_closed:
  assumes I: "ginv g s e {} vis {} P"
  shows "walk g s ws \<Longrightarrow> last (s # ws) \<in> set vis"
proof (induction ws rule: rev_induct)
  case Nil
  have "vis \<noteq> []" using ginvD(6)[OF I] by auto
  then show ?case using ginv_start_vis[OF I] by simp
next
  case (snoc w ws)
  then have "last (s # ws) \<in> set vis" and "move g (last (s # ws)) w"
    by (simp_all add: walk_append del: last.simps)
  then show ?case using ginvD(11)[OF I] by auto
qed

lemma ginv_exhaust:
  assumes I: "ginv g s e {} vis {} P"
  shows "pchain P e [] \<and> gfinal g s e vis []"
proof -
  note D = ginvD[OF I]
  have ne: "vis \<noteq> []" using D(6) by auto
  have nr: "\<not> reachable g s e"
    using ginv_closed[OF I] D(2) unfolding reachable_def route_def by blast
  have "P e = None"
  proof (cases "P e")
    case (Some p)
    then show ?thesis using D(8)[OF Some] D(2) by simp
  qed simp
  then have "pchain P e []" by (rule pchain.root)
  moreover have "gfinal g s e vis []"
    unfolding gfinal_def using ne D(7)[OF ne] D(1,2) D(4) nr ginv_vis_reachable[OF I] by auto
  ultimately show ?thesis by simp
qed

lemma inb_count:
  assumes "distinct xs" and "\<forall>p \<in> set xs. inb R C p"
  shows "length xs \<le> R * C"
proof -
  have "set xs \<subseteq> (\<lambda>(i, j). (int i, int j)) ` ({..<R} \<times> {..<C})"
  proof
    fix p assume "p \<in> set xs"
    then have i: "inb R C p" using assms(2) by blast
    obtain r c where p: "p = (r, c)" by (cases p)
    have "(nat r, nat c) \<in> {..<R} \<times> {..<C}" "p = (int (nat r), int (nat c))"
      using i p by (auto simp: inb_def)
    then show "p \<in> (\<lambda>(i, j). (int i, int j)) ` ({..<R} \<times> {..<C})" by (metis (no_types, lifting) image_eqI case_prod_conv)
  qed
  then have "card (set xs) \<le> card ((\<lambda>(i, j). (int i, int j)) ` ({..<R} \<times> {..<C}))"
    by (intro card_mono) auto
  also have "\<dots> \<le> card ({..<R} \<times> {..<C})" by (rule card_image_le) simp
  also have "\<dots> = R * C" by simp
  finally show ?thesis using distinct_card[OF assms(1)] by simp
qed

section \<open>Breadth-first and depth-first search: the shared part\<close>

lemma wallAt_get2: "wallAt g w = isWall (get2 g w)"
  by (simp add: wallAt_def get2_def)

lemma finvD:
  assumes "finv g s e ex st"
  shows "rectangular g" and "inBounds g e"
    and "dims (f_visited st) (length g) (length (hd g))"
    and "dims (f_previousNodes st) (length g) (length (hd g))"
    and "ginv g s e ex (f_order st) (set (f_frontier st)) (predOf (f_previousNodes st))"
    and "distinct (f_frontier st)" and "set (f_frontier st) \<inter> set (f_order st) = {}"
    and "\<And>w. inBounds g w \<Longrightarrow> get2 (f_visited st) w = (w \<in> set (f_order st) \<union> set (f_frontier st))"
  using assms unfolding finv_def by blast+

lemma discover_eq:
  assumes "rectangular g" "inBounds g w"
    and "dims (f_visited st) (length g) (length (hd g))"
    and "dims (f_previousNodes st) (length g) (length (hd g))"
  shows "frontier_discover g u st w = Some (discovered g u st w)"
proof -
  have i: "inb (length g) (length (hd g)) w" using assms(2) by (simp add: inBounds_inb)
  have 1: "read2 (f_visited st) w = Some (get2 (f_visited st) w)" using read2_dims[OF assms(3) i] .
  have 2: "read2 g w = Some (get2 g w)" using read2_dims[OF dims_rectangular[OF assms(1)] i] .
  have 3: "write2 (f_visited st) w True = Some (upd2 (f_visited st) w True)"
    using write2_dims[OF assms(3) i] .
  have 4: "write2 (f_previousNodes st) w (Some u) = Some (upd2 (f_previousNodes st) w (Some u))"
    using write2_dims[OF assms(4) i] .
  show ?thesis
    unfolding frontier_discover_def discovered_def by (simp add: 1 2 3 4 wallAt_get2)
qed

lemma discovered_order: "f_order (discovered g u st w) = f_order st"
  by (simp add: discovered_def)

lemma discovered_finv:
  assumes I: "finv g s e (insert (u, w) ex) st"
    and u: "u \<in> set (f_order st)" and a: "adjacent u w" and b: "inBounds g w"
  shows "finv g s e ex (discovered g u st w)"
proof (cases "get2 (f_visited st) w \<or> wallAt g w")
  case True
  note D = finvD[OF I]
  have "\<not> move g u w \<or> w \<in> set (f_order st) \<union> set (f_frontier st)"
    using True D(8)[OF b] by (auto simp: move_def)
  from ginv_skip[OF D(5) this] have "ginv g s e ex (f_order st) (set (f_frontier st)) (predOf (f_previousNodes st))" .
  then show ?thesis using True D unfolding finv_def discovered_def by simp
next
  case False
  note D = finvD[OF I]
  let ?R = "length g" and ?C = "length (hd g)"
  have i: "inb ?R ?C w" using b by (simp add: inBounds_inb)
  have nw: "w \<notin> set (f_order st) \<union> set (f_frontier st)" using False D(8)[OF b] by simp
  have m: "move g u w" using False a b by (simp add: move_def)
  have nv: "w \<notin> set (f_order st)" using nw by simp
  have G: "ginv g s e ex (f_order st) (insert w (set (f_frontier st)))
             ((predOf (f_previousNodes st))(w := Some u))"
    using ginv_add[OF D(5) u m nv] .
  have P: "predOf (upd2 (f_previousNodes st) w (Some u)) = (predOf (f_previousNodes st))(w := Some u)"
    using predOf_upd2[OF D(4) i] .
  have V: "\<And>x. inBounds g x \<Longrightarrow> get2 (upd2 (f_visited st) w True) x
              = (x \<in> set (f_order st) \<union> set (f_frontier st @ [w]))"
  proof -
    fix x assume x: "inBounds g x"
    then have "inb ?R ?C x" by (simp add: inBounds_inb)
    from get2_upd2[OF D(3) i this, of True] show "get2 (upd2 (f_visited st) w True) x
              = (x \<in> set (f_order st) \<union> set (f_frontier st @ [w]))"
      using D(8)[OF x] by auto
  qed
  have eq: "discovered g u st w = st\<lparr>f_visited := upd2 (f_visited st) w True,
              f_previousNodes := upd2 (f_previousNodes st) w (Some u),
              f_frontier := f_frontier st @ [w]\<rparr>"
    using False by (simp add: discovered_def)
  show ?thesis
    unfolding finv_def eq
  proof (intro conjI)
    show "rectangular g" "inBounds g e" by (rule D(1), rule D(2))
    show "dims (f_visited (st\<lparr>f_visited := upd2 (f_visited st) w True,
              f_previousNodes := upd2 (f_previousNodes st) w (Some u),
              f_frontier := f_frontier st @ [w]\<rparr>)) ?R ?C"
      using dims_upd2[OF D(3)] by simp
    show "dims (f_previousNodes (st\<lparr>f_visited := upd2 (f_visited st) w True,
              f_previousNodes := upd2 (f_previousNodes st) w (Some u),
              f_frontier := f_frontier st @ [w]\<rparr>)) ?R ?C"
      using dims_upd2[OF D(4)] by simp
    show "ginv g s e ex (f_order (st\<lparr>f_visited := upd2 (f_visited st) w True,
              f_previousNodes := upd2 (f_previousNodes st) w (Some u),
              f_frontier := f_frontier st @ [w]\<rparr>))
            (set (f_frontier (st\<lparr>f_visited := upd2 (f_visited st) w True,
              f_previousNodes := upd2 (f_previousNodes st) w (Some u),
              f_frontier := f_frontier st @ [w]\<rparr>)))
            (predOf (f_previousNodes (st\<lparr>f_visited := upd2 (f_visited st) w True,
              f_previousNodes := upd2 (f_previousNodes st) w (Some u),
              f_frontier := f_frontier st @ [w]\<rparr>)))"
      using G P by simp
    show "distinct (f_frontier (st\<lparr>f_visited := upd2 (f_visited st) w True,
              f_previousNodes := upd2 (f_previousNodes st) w (Some u),
              f_frontier := f_frontier st @ [w]\<rparr>))"
      using D(6) nw by simp
    show "set (f_frontier (st\<lparr>f_visited := upd2 (f_visited st) w True,
              f_previousNodes := upd2 (f_previousNodes st) w (Some u),
              f_frontier := f_frontier st @ [w]\<rparr>))
          \<inter> set (f_order (st\<lparr>f_visited := upd2 (f_visited st) w True,
              f_previousNodes := upd2 (f_previousNodes st) w (Some u),
              f_frontier := f_frontier st @ [w]\<rparr>)) = {}"
      using D(7) nw by simp
    show "\<forall>x. inBounds g x \<longrightarrow>
          get2 (f_visited (st\<lparr>f_visited := upd2 (f_visited st) w True,
              f_previousNodes := upd2 (f_previousNodes st) w (Some u),
              f_frontier := f_frontier st @ [w]\<rparr>)) x =
          (x \<in> set (f_order (st\<lparr>f_visited := upd2 (f_visited st) w True,
              f_previousNodes := upd2 (f_previousNodes st) w (Some u),
              f_frontier := f_frontier st @ [w]\<rparr>))
             \<union> set (f_frontier (st\<lparr>f_visited := upd2 (f_visited st) w True,
              f_previousNodes := upd2 (f_previousNodes st) w (Some u),
              f_frontier := f_frontier st @ [w]\<rparr>)))"
      using V by simp
  qed
qed

lemma discover_all:
  assumes u: "u \<in> set (f_order st)" and n: "\<forall>w \<in> set ws. adjacent u w \<and> inBounds g w"
    and I: "finv g s e ({u} \<times> set ws) st"
  shows "\<exists>st'. forEach (frontier_discover g u) st ws = Some st' \<and> finv g s e {} st'
            \<and> f_order st' = f_order st"
  using assms
proof (induction ws arbitrary: st)
  case Nil
  then show ?case by simp
next
  case (Cons w ws)
  have e: "{u} \<times> set (w # ws) = insert (u, w) ({u} \<times> set ws)" by auto
  have I': "finv g s e (insert (u, w) ({u} \<times> set ws)) st" using Cons.prems(3) e by simp
  note D = finvD[OF I']
  have a: "adjacent u w" and b: "inBounds g w" using Cons.prems(2) by auto
  have 1: "frontier_discover g u st w = Some (discovered g u st w)"
    using discover_eq[OF D(1) b D(3,4)] .
  have 2: "finv g s e ({u} \<times> set ws) (discovered g u st w)"
    using discovered_finv[OF I' Cons.prems(1) a b] .
  have 3: "u \<in> set (f_order (discovered g u st w))" using Cons.prems(1) by (simp add: discovered_order)
  have 4: "\<forall>w \<in> set ws. adjacent u w \<and> inBounds g w" using Cons.prems(2) by simp
  from Cons.IH[OF 3 4 2] show ?case using 1 by (simp add: discovered_order)
qed

lemma ginv_init: "inBounds g s \<Longrightarrow> ginv g s e {} [] {s} (\<lambda>_. None)"
  by (rule ginvI) simp_all

lemma coord_eq: "(fst (u::coord) = fst e \<and> snd u = snd e) = (u = e)"
  by (simp add: prod_eq_iff)

lemma finv_pop:
  assumes I: "finv g s e {} st" and u: "u \<in> set (f_frontier st)" "u \<noteq> e"
    and r: "distinct rest" "set rest = set (f_frontier st) - {u}"
  shows "finv g s e ({u} \<times> set (getNeighbors (fst u) (snd u) g))
           (st\<lparr>f_frontier := rest, f_order := f_order st @ [u]\<rparr>)"
proof -
  note D = finvD[OF I]
  have nv: "u \<notin> set (f_order st)" using D(7) u(1) by auto
  have G: "ginv g s e ({u} \<times> set (getNeighbors (fst u) (snd u) g)) (f_order st @ [u]) (set rest)
             (predOf (f_previousNodes st))"
    by (rule ginv_pop[OF D(5) u(1) nv u(2)]) (use r(2) move_neighbor in auto)
  have V: "\<forall>w. inBounds g w \<longrightarrow> get2 (f_visited st) w = (w \<in> set (f_order st @ [u]) \<union> set rest)"
    using D(8) r(2) u(1) by auto
  have X: "set rest \<inter> set (f_order st @ [u]) = {}" using D(7) r(2) by auto
  show ?thesis unfolding finv_def using D(1,2,3,4) G V X r(1) by simp
qed

lemma finv_order_bound:
  assumes "finv g s e ex st"
  shows "length (f_order st) \<le> length g * length (hd g)"
proof -
  note G = ginvD[OF finvD(5)[OF assms]]
  show ?thesis by (rule inb_count[OF G(1)]) (use G(4) in \<open>auto simp: inBounds_inb\<close>)
qed

lemma finv_exit_break:
  assumes I: "finv g s e {} st" and u: "e \<in> set (f_frontier st)"
  shows "\<exists>ys. getNodesInShortestPathOrder (f_previousNodes st) e = Some ys
           \<and> gfinal g s e (f_order st @ [e]) ys \<and> pchain (predOf (f_previousNodes st)) e ys"
proof -
  note D = finvD[OF I]
  obtain ys where ys: "pchain (predOf (f_previousNodes st)) e ys" "gfinal g s e (f_order st @ [e]) ys"
    using ginv_break[OF D(5) u] by blast
  have "\<forall>x \<in> insert e (set ys). inb (length g) (length (hd g)) x"
    using ys(2) D(2) unfolding gfinal_def by (auto simp: inBounds_inb)
  from getNodes_chain[OF D(4) ys(1) this] ys show ?thesis by blast
qed

lemma finv_exit_empty:
  assumes I: "finv g s e {} st" and u: "f_frontier st = []"
  shows "getNodesInShortestPathOrder (f_previousNodes st) e = Some []
           \<and> gfinal g s e (f_order st) [] \<and> pchain (predOf (f_previousNodes st)) e []"
proof -
  note D = finvD[OF I]
  have "ginv g s e {} (f_order st) {} (predOf (f_previousNodes st))" using D(5) u by simp
  from ginv_exhaust[OF this]
  have ys: "pchain (predOf (f_previousNodes st)) e []" "gfinal g s e (f_order st) []" by auto
  have "\<forall>x \<in> insert e (set []). inb (length g) (length (hd g)) x"
    using D(2) by (auto simp: inBounds_inb)
  from getNodes_chain[OF D(4) ys(1) this] ys show ?thesis by blast
qed

text \<open>The outcome of a search of bfs or dfs: a final state and the path read from it.\<close>

lemma dfs_loop_total:
  "finv g s e {} st \<Longrightarrow>
     \<exists>st' ys. dfs_loop g e st = Some st' \<and> getNodesInShortestPathOrder (f_previousNodes st') e = Some ys
        \<and> gfinal g s e (f_order st') ys"
proof (induction "length g * length (hd g) - length (f_order st)" arbitrary: st rule: less_induct)
  case less
  show ?case
  proof (cases "f_frontier st = []")
    case True
    have "dfs_loop g e st = Some st" using True by (subst dfs_loop.simps) simp
    then show ?thesis using finv_exit_empty[OF less.prems True] by auto
  next
    case False
    define u where "u = last (f_frontier st)"
    define st1 where "st1 = st\<lparr>f_frontier := butlast (f_frontier st), f_order := f_order st @ [u]\<rparr>"
    have uin: "u \<in> set (f_frontier st)" using False by (simp add: u_def)
    show ?thesis
    proof (cases "u = e")
      case True
      have "dfs_loop g e st = Some st1"
        using False True by (subst dfs_loop.simps) (simp add: Let_def u_def[symmetric] st1_def coord_eq)
      moreover have "\<exists>ys. getNodesInShortestPathOrder (f_previousNodes st1) e = Some ys
           \<and> gfinal g s e (f_order st1) ys"
        using finv_exit_break[OF less.prems] uin True by (auto simp: st1_def)
      ultimately show ?thesis by blast
    next
      case ne: False
      obtain b where b: "f_frontier st = b @ [u]"
        using False u_def by (metis append_butlast_last_id)
      have bl: "butlast (f_frontier st) = b" unfolding b by simp
      have d: "distinct (butlast (f_frontier st))"
        using finvD(6)[OF less.prems] by (rule distinct_butlast)
      have "u \<notin> set b" using finvD(6)[OF less.prems] unfolding b by simp
      then have sr: "set (butlast (f_frontier st)) = set (f_frontier st) - {u}"
        unfolding bl unfolding b by auto
      have I1: "finv g s e ({u} \<times> set (getNeighbors (fst u) (snd u) g)) st1"
        unfolding st1_def by (rule finv_pop[OF less.prems uin ne d sr])
      have n: "\<forall>w \<in> set (getNeighbors (fst u) (snd u) g). adjacent u w \<and> inBounds g w"
        using set_getNeighbors[of _ "fst u" "snd u" g] by simp
      have "u \<in> set (f_order st1)" by (simp add: st1_def)
      from discover_all[OF this n I1] obtain st2 where
        st2: "forEach (frontier_discover g u) st1 (getNeighbors (fst u) (snd u) g) = Some st2"
          "finv g s e {} st2" "f_order st2 = f_order st1"
        by blast
      have "length (f_order st2) \<le> length g * length (hd g)" by (rule finv_order_bound[OF st2(2)])
      then have m: "length g * length (hd g) - length (f_order st2) < length g * length (hd g) - length (f_order st)"
        using st2(3) by (simp add: st1_def)
      have "dfs_loop g e st = dfs_loop g e st2"
        using False ne st2(1)
        by (subst dfs_loop.simps) (simp add: Let_def u_def[symmetric] st1_def[symmetric] coord_eq)
      then show ?thesis using less.hyps[OF m st2(2)] by simp
    qed
  qed
qed

section \<open>Level order of a first-in first-out frontier\<close>

lemma oinvD:
  assumes "oinv g ex vis Q P D"
  shows "\<And>w. w \<in> set vis \<union> set Q \<Longrightarrow> \<exists>xs. pchain P w xs \<and> length xs = D w"
    and "\<And>v w. v \<in> set vis \<Longrightarrow> move g v w \<Longrightarrow> (v, w) \<in> ex \<or> (w \<in> set vis \<union> set Q \<and> D w \<le> D v + 1)"
    and "sorted (map D (vis @ Q))"
    and "\<And>w. vis \<noteq> [] \<Longrightarrow> w \<in> set Q \<Longrightarrow> D w \<le> D (last vis) + 1"
  using assms unfolding oinv_def by blast+

lemma oinvI:
  assumes "\<And>w. w \<in> set vis \<union> set Q \<Longrightarrow> \<exists>xs. pchain P w xs \<and> length xs = D w"
    and "\<And>v w. v \<in> set vis \<Longrightarrow> move g v w \<Longrightarrow> (v, w) \<in> ex \<or> (w \<in> set vis \<union> set Q \<and> D w \<le> D v + 1)"
    and "sorted (map D (vis @ Q))"
    and "\<And>w. vis \<noteq> [] \<Longrightarrow> w \<in> set Q \<Longrightarrow> D w \<le> D (last vis) + 1"
  shows "oinv g ex vis Q P D"
  unfolding oinv_def using assms by blast

lemma sorted_le_last:
  assumes "sorted (map D (vis @ Q))" "v \<in> set vis"
  shows "D v \<le> D (last vis)"
proof -
  have s: "sorted (map D vis)" using assms(1) by (simp add: sorted_append)
  have ne: "vis \<noteq> []" using assms(2) by auto
  then obtain b where b: "vis = b @ [last vis]" by (metis append_butlast_last_id)
  have "sorted (map D b @ [D (last vis)])" using s b by (metis map_append list.simps(8,9))
  then have "\<forall>x \<in> set b. D x \<le> D (last vis)" by (simp add: sorted_append)
  moreover have "v \<in> set b \<or> v = last vis" using assms(2) b by (metis Un_iff set_append list.set_intros(1) empty_iff empty_set set_ConsD)
  ultimately show ?thesis by auto
qed

lemma sorted_vis_le_queue:
  assumes "sorted (map D (vis @ Q))" "v \<in> set vis" "w \<in> set Q"
  shows "D v \<le> D w"
  using assms by (auto simp: sorted_append)

lemma sorted_hd_le:
  assumes "sorted (map D (vis @ u # rest))" "w \<in> set (u # rest)"
  shows "D u \<le> D w"
  using assms by (auto simp: sorted_append)

lemma pchain_subset:
  assumes "\<And>x p. P x = Some p \<Longrightarrow> p \<in> V"
  shows "pchain P w xs \<Longrightarrow> set xs \<subseteq> V"
  by (induction rule: pchain.induct) (use assms in auto)

lemma oinv_init: "oinv g {} [] [s] (\<lambda>_. None) (\<lambda>_. 0)"
proof (rule oinvI)
  show "\<exists>xs. pchain (\<lambda>_. None) w xs \<and> length xs = 0" for w
    using pchain.root[of "\<lambda>_. None" w] by auto
qed simp_all

lemma oinv_pop:
  assumes O: "oinv g {} vis (u # rest) P D" and r: "vis = [] \<Longrightarrow> rest = []"
    and ex: "\<And>w. move g u w \<Longrightarrow> (u, w) \<in> ex"
  shows "oinv g ex (vis @ [u]) rest P D"
proof (rule oinvI)
  note D = oinvD[OF O]
  show "\<exists>xs. pchain P w xs \<and> length xs = D w" if "w \<in> set (vis @ [u]) \<union> set rest" for w
    using D(1)[of w] that by auto
  show "(v, w) \<in> ex \<or> w \<in> set (vis @ [u]) \<union> set rest \<and> D w \<le> D v + 1"
    if "v \<in> set (vis @ [u])" "move g v w" for v w
  proof (cases "v \<in> set vis")
    case True
    then show ?thesis using D(2)[OF True that(2)] by auto
  next
    case False
    then have "v = u" using that(1) by simp
    then show ?thesis using ex that(2) by simp
  qed
  show "sorted (map D ((vis @ [u]) @ rest))" using D(3) by simp
  show "D w \<le> D (last (vis @ [u])) + 1" if "vis @ [u] \<noteq> []" "w \<in> set rest" for w
  proof (cases "vis = []")
    case True
    then show ?thesis using r that(2) by simp
  next
    case False
    have "D w \<le> D (last vis) + 1" using D(4)[OF False, of w] that(2) by simp
    moreover have "D (last vis) \<le> D u"
      using sorted_vis_le_queue[OF D(3), of "last vis" u] False by simp
    ultimately show ?thesis by simp
  qed
qed

lemma oinv_skip:
  assumes O: "oinv g (insert (u, w) ex) vis Q P D" and l: "vis \<noteq> []" "last vis = u"
    and n: "\<not> move g u w \<or> w \<in> set vis \<union> set Q"
  shows "oinv g ex vis Q P D"
proof (rule oinvI)
  note D = oinvD[OF O]
  show "(v, x) \<in> ex \<or> x \<in> set vis \<union> set Q \<and> D x \<le> D v + 1" if "v \<in> set vis" "move g v x" for v x
  proof (cases "(v, x) = (u, w)")
    case True
    then have w: "w \<in> set vis \<union> set Q" using n that(2) by auto
    have "D w \<le> D u + 1"
    proof (cases "w \<in> set vis")
      case True
      then show ?thesis using sorted_le_last[OF D(3) True] l(2) by simp
    next
      case False
      then show ?thesis using D(4)[OF l(1), of w] w l(2) by simp
    qed
    then show ?thesis using True w by simp
  next
    case False
    then show ?thesis using D(2)[OF that] by auto
  qed
qed (use oinvD[OF O] in auto)

lemma oinv_add:
  assumes O: "oinv g (insert (u, w) ex) vis Q P D" and l: "vis \<noteq> []" "last vis = u"
    and w: "w \<notin> set vis \<union> set Q"
    and pv: "\<And>x p. P x = Some p \<Longrightarrow> p \<in> set vis"
  shows "oinv g ex vis (Q @ [w]) (P(w := Some u)) (D(w := D u + 1))"
proof (rule oinvI)
  note D = oinvD[OF O]
  have uv: "u \<in> set vis" using l by auto
  have uw: "u \<noteq> w" using uv w by auto
  have keep: "pchain (P(w := Some u)) x xs" if "pchain P x xs" "x \<noteq> w" for x xs
  proof -
    have "set xs \<subseteq> set vis" using pchain_subset[OF pv that(1)] by simp
    then have "\<forall>y \<in> insert x (set xs). (P(w := Some u)) y = P y" using w that(2) by auto
    then show ?thesis using pchain_cong[OF that(1)] by blast
  qed
  show "\<exists>xs. pchain (P(w := Some u)) x xs \<and> length xs = (D(w := D u + 1)) x"
    if xin: "x \<in> set vis \<union> set (Q @ [w])" for x
  proof (cases "x = w")
    case True
    obtain xs where xs: "pchain P u xs" "length xs = D u" using D(1)[of u] uv by auto
    have "pchain (P(w := Some u)) u xs" using keep[OF xs(1) uw] .
    then have "pchain (P(w := Some u)) w (xs @ [u])" by (intro pchain.link) simp_all
    then show ?thesis using True xs(2) by auto
  next
    case False
    then obtain xs where "pchain P x xs" "length xs = D x" using D(1)[of x] xin by auto
    then show ?thesis using keep[of x xs] False by auto
  qed
  show "(v, x) \<in> ex \<or> x \<in> set vis \<union> set (Q @ [w]) \<and> (D(w := D u + 1)) x \<le> (D(w := D u + 1)) v + 1"
    if "v \<in> set vis" "move g v x" for v x
  proof (cases "(v, x) = (u, w)")
    case True
    then show ?thesis using uw by simp
  next
    case False
    have vw: "v \<noteq> w" using that(1) w by auto
    from D(2)[OF that] False have "(v, x) \<in> ex \<or> (x \<in> set vis \<union> set Q \<and> D x \<le> D v + 1)" by auto
    then show ?thesis using vw w by auto
  qed
  have m: "map (D(w := D u + 1)) (vis @ Q) = map D (vis @ Q)" using w by auto
  have "\<forall>x \<in> set (vis @ Q). D x \<le> D u + 1"
  proof
    fix x assume "x \<in> set (vis @ Q)"
    then consider "x \<in> set vis" | "x \<in> set Q" by auto
    then show "D x \<le> D u + 1"
    proof cases
      case 1
      then show ?thesis using sorted_le_last[OF D(3) 1] l(2) by simp
    next
      case 2
      then show ?thesis using D(4)[OF l(1) 2] l(2) by simp
    qed
  qed
  then have "sorted (map D (vis @ Q) @ [D u + 1])" using D(3) by (auto simp: sorted_append)
  then show "sorted (map (D(w := D u + 1)) (vis @ Q @ [w]))"
    using m by (metis append.assoc fun_upd_same list.simps(8,9) map_append)
  show "(D(w := D u + 1)) x \<le> (D(w := D u + 1)) (last vis) + 1" if "vis \<noteq> []" "x \<in> set (Q @ [w])" for x
    using that D(4)[OF l(1), of x] l(2) uw by auto
qed

lemma oinv_walk:
  assumes G: "ginv g s e {} vis (set Q) P" and O: "oinv g {} vis Q P D"
    and m: "\<forall>w \<in> set Q. m \<le> D w"
  shows "walk g s ws \<Longrightarrow> length ws \<le> m
           \<Longrightarrow> last (s # ws) \<in> set vis \<union> set Q \<and> D (last (s # ws)) \<le> length ws"
proof (induction ws rule: rev_induct)
  case Nil
  note GD = ginvD[OF G]
  have sin: "s \<in> set vis \<union> set Q"
  proof (cases "vis = []")
    case True
    then show ?thesis using GD(6) by simp
  next
    case False
    then show ?thesis using ginv_start_vis[OF G] by simp
  qed
  then obtain xs where xs: "pchain P s xs" "length xs = D s" using oinvD(1)[OF O, of s] by blast
  have "pchain P s []" using GD(5) by (rule pchain.root)
  then have "xs = []" using pchain_fun[OF xs(1)] by simp
  then show ?case using sin xs(2) by simp
next
  case (snoc w ws)
  have wk: "walk g s ws" and mv: "move g (last (s # ws)) w"
    using snoc.prems(1) by (simp_all add: walk_append del: last.simps)
  have len: "length ws < m" using snoc.prems(2) by simp
  then have IH: "last (s # ws) \<in> set vis \<union> set Q" "D (last (s # ws)) \<le> length ws"
    using snoc.IH[OF wk] by simp_all
  have "last (s # ws) \<notin> set Q" using m IH(2) len by fastforce
  then have v: "last (s # ws) \<in> set vis" using IH(1) by simp
  from oinvD(2)[OF O v mv] have "w \<in> set vis \<union> set Q \<and> D w \<le> D (last (s # ws)) + 1" by simp
  then show ?case using IH(2) by simp
qed

lemma chain_route_length:
  assumes "xs @ [v] = s # ws" "walk g s ws"
  shows "route g s ws v \<and> length ws = length xs"
proof -
  have "last (s # ws) = last (xs @ [v])" using assms(1) by simp
  then have "last (s # ws) = v" by simp
  moreover have "length (xs @ [v]) = length (s # ws)" using assms(1) by simp
  ultimately show ?thesis using assms(2) by (simp add: route_def)
qed

lemma ginv_any_route:
  assumes G: "ginv g s e ex vis F P" and v: "v \<in> set vis \<union> F" and c: "pchain P v xs"
  shows "\<exists>ws. route g s ws v \<and> length ws = length xs"
proof -
  obtain zs ws where z: "pchain P v zs" "zs @ [v] = s # ws" "walk g s ws"
    using ginv_chain_route[OF G, of v] ginv_front_route[OF G, of v] v by blast
  have "zs = xs" using pchain_fun[OF z(1) c] .
  then show ?thesis using chain_route_length[OF z(2,3)] by blast
qed

lemma oinv_shortest_break:
  assumes G: "ginv g s e {} vis (set (u # rest)) P" and O: "oinv g {} vis (u # rest) P D"
  shows "shortest g s (vis @ [u]) P"
  unfolding shortest_def
proof
  fix v assume v: "v \<in> set (vis @ [u])"
  then have vin: "v \<in> set vis \<union> set (u # rest)" by auto
  obtain xs where xs: "pchain P v xs" "length xs = D v" using oinvD(1)[OF O vin] by blast
  have m: "\<forall>w \<in> set (u # rest). D u \<le> D w" using sorted_hd_le[OF oinvD(3)[OF O]] by blast
  have vu: "D v \<le> D u"
  proof (cases "v \<in> set vis")
    case True
    then show ?thesis using sorted_vis_le_queue[OF oinvD(3)[OF O] True, of u] by simp
  next
    case False
    then show ?thesis using v by simp
  qed
  have "length xs \<le> length ws" if r: "route g s ws v" for ws
  proof (cases "length ws \<le> D u")
    case True
    have "walk g s ws" "last (s # ws) = v" using r by (simp_all add: route_def)
    then show ?thesis using oinv_walk[OF G O m _ True] xs(2) by simp
  next
    case False
    then show ?thesis using vu xs(2) by simp
  qed
  then show "\<exists>xs. pchain P v xs \<and> (\<exists>ws. route g s ws v \<and> length ws = length xs)
      \<and> (\<forall>ws. route g s ws v \<longrightarrow> length xs \<le> length ws)"
    using xs(1) ginv_any_route[OF G vin xs(1)] by blast
qed

lemma oinv_shortest_empty:
  assumes G: "ginv g s e {} vis {} P" and O: "oinv g {} vis [] P D"
  shows "shortest g s vis P"
  unfolding shortest_def
proof
  fix v assume v: "v \<in> set vis"
  then obtain xs where xs: "pchain P v xs" "length xs = D v" using oinvD(1)[OF O, of v] by auto
  have G': "ginv g s e {} vis (set []) P" using G by simp
  have vin: "v \<in> set vis \<union> {}" using v by simp
  have "length xs \<le> length ws" if r: "route g s ws v" for ws
  proof -
    have "walk g s ws" "last (s # ws) = v" using r by (simp_all add: route_def)
    then show ?thesis using oinv_walk[OF G' O, where m = "length ws" and ws = ws] xs(2) by simp
  qed
  then show "\<exists>xs. pchain P v xs \<and> (\<exists>ws. route g s ws v \<and> length ws = length xs)
      \<and> (\<forall>ws. route g s ws v \<longrightarrow> length xs \<le> length ws)"
    using xs(1) ginv_any_route[OF G vin xs(1)] by blast
qed

section \<open>Breadth-first search\<close>

lemma discovered_oinv:
  assumes I: "finv g s e (insert (u, w) ex) st"
    and O: "oinv g (insert (u, w) ex) (f_order st) (f_frontier st) (predOf (f_previousNodes st)) D"
    and l: "f_order st \<noteq> []" "last (f_order st) = u"
    and a: "adjacent u w" and b: "inBounds g w"
  shows "\<exists>D'. oinv g ex (f_order (discovered g u st w)) (f_frontier (discovered g u st w))
                 (predOf (f_previousNodes (discovered g u st w))) D'"
proof (cases "get2 (f_visited st) w \<or> wallAt g w")
  case True
  note D = finvD[OF I]
  have "\<not> move g u w \<or> w \<in> set (f_order st) \<union> set (f_frontier st)"
    using True D(8)[OF b] by (auto simp: move_def)
  from oinv_skip[OF O l this] show ?thesis using True by (auto simp: discovered_def)
next
  case False
  note D = finvD[OF I]
  have i: "inb (length g) (length (hd g)) w" using b by (simp add: inBounds_inb)
  have nw: "w \<notin> set (f_order st) \<union> set (f_frontier st)" using False D(8)[OF b] by simp
  have pv: "\<And>x p. predOf (f_previousNodes st) x = Some p \<Longrightarrow> p \<in> set (f_order st)"
    using ginvD(8)[OF D(5)] by blast
  have P: "predOf (upd2 (f_previousNodes st) w (Some u)) = (predOf (f_previousNodes st))(w := Some u)"
    using predOf_upd2[OF D(4) i] .
  have "oinv g ex (f_order st) (f_frontier st @ [w]) ((predOf (f_previousNodes st))(w := Some u))
          (D(w := D u + 1))"
    by (rule oinv_add[OF O l nw]) (rule pv)
  then show ?thesis using False P by (auto simp: discovered_def)
qed

lemma discover_all_level:
  assumes l: "f_order st \<noteq> []" "last (f_order st) = u"
    and n: "\<forall>w \<in> set ws. adjacent u w \<and> inBounds g w"
    and I: "finv g s e ({u} \<times> set ws) st"
    and O: "oinv g ({u} \<times> set ws) (f_order st) (f_frontier st) (predOf (f_previousNodes st)) D"
  shows "\<exists>st' D'. forEach (frontier_discover g u) st ws = Some st' \<and> finv g s e {} st'
            \<and> f_order st' = f_order st
            \<and> oinv g {} (f_order st') (f_frontier st') (predOf (f_previousNodes st')) D'"
  using assms
proof (induction ws arbitrary: st D)
  case Nil
  then show ?case by auto
next
  case (Cons w ws)
  have e: "{u} \<times> set (w # ws) = insert (u, w) ({u} \<times> set ws)" by auto
  have I': "finv g s e (insert (u, w) ({u} \<times> set ws)) st" using Cons.prems(4) e by simp
  have O': "oinv g (insert (u, w) ({u} \<times> set ws)) (f_order st) (f_frontier st)
              (predOf (f_previousNodes st)) D" using Cons.prems(5) e by simp
  note D = finvD[OF I']
  have uo: "u \<in> set (f_order st)" using Cons.prems(1,2) by auto
  have a: "adjacent u w" and b: "inBounds g w" using Cons.prems(3) by auto
  have 1: "frontier_discover g u st w = Some (discovered g u st w)"
    using discover_eq[OF D(1) b D(3,4)] .
  have 2: "finv g s e ({u} \<times> set ws) (discovered g u st w)"
    using discovered_finv[OF I' uo a b] .
  obtain D' where 3: "oinv g ({u} \<times> set ws) (f_order (discovered g u st w))
      (f_frontier (discovered g u st w)) (predOf (f_previousNodes (discovered g u st w))) D'"
    using discovered_oinv[OF I' O' Cons.prems(1,2) a b] by blast
  have 4: "f_order (discovered g u st w) \<noteq> []" "last (f_order (discovered g u st w)) = u"
    using Cons.prems(1,2) by (simp_all add: discovered_order)
  have 5: "\<forall>w \<in> set ws. adjacent u w \<and> inBounds g w" using Cons.prems(3) by simp
  from Cons.IH[OF 4 5 2 3] show ?case using 1 by (simp add: discovered_order)
qed

lemma bfs_loop_total:
  "finv g s e {} st \<Longrightarrow> oinv g {} (f_order st) (f_frontier st) (predOf (f_previousNodes st)) D \<Longrightarrow>
     \<exists>st' ys. bfs_loop g e st = Some st' \<and> getNodesInShortestPathOrder (f_previousNodes st') e = Some ys
        \<and> gfinal g s e (f_order st') ys \<and> pchain (predOf (f_previousNodes st')) e ys
        \<and> shortest g s (f_order st') (predOf (f_previousNodes st'))"
proof (induction "length g * length (hd g) - length (f_order st)" arbitrary: st D rule: less_induct)
  case less
  show ?case
  proof (cases "f_frontier st")
    case Nil
    have "bfs_loop g e st = Some st" using Nil by (subst bfs_loop.simps) simp
    moreover have "shortest g s (f_order st) (predOf (f_previousNodes st))"
      using oinv_shortest_empty[of g s e "f_order st" "predOf (f_previousNodes st)" D]
        finvD(5)[OF less.prems(1)] less.prems(2) Nil by simp
    ultimately show ?thesis using finv_exit_empty[OF less.prems(1) Nil] by auto
  next
    case (Cons u rest)
    define st1 where "st1 = st\<lparr>f_frontier := rest, f_order := f_order st @ [u]\<rparr>"
    have uin: "u \<in> set (f_frontier st)" using Cons by simp
    have G: "ginv g s e {} (f_order st) (set (u # rest)) (predOf (f_previousNodes st))"
      using finvD(5)[OF less.prems(1)] Cons by simp
    have O: "oinv g {} (f_order st) (u # rest) (predOf (f_previousNodes st)) D"
      using less.prems(2) Cons by simp
    show ?thesis
    proof (cases "u = e")
      case True
      have "bfs_loop g e st = Some st1"
        using Cons True by (subst bfs_loop.simps) (simp add: Let_def st1_def coord_eq)
      moreover have "\<exists>ys. getNodesInShortestPathOrder (f_previousNodes st1) e = Some ys
           \<and> gfinal g s e (f_order st1) ys \<and> pchain (predOf (f_previousNodes st1)) e ys"
        using finv_exit_break[OF less.prems(1)] uin True by (auto simp: st1_def)
      moreover have "shortest g s (f_order st1) (predOf (f_previousNodes st1))"
        using oinv_shortest_break[OF G O] by (simp add: st1_def)
      ultimately show ?thesis by blast
    next
      case ne: False
      have d: "distinct rest" and ur: "u \<notin> set rest" using finvD(6)[OF less.prems(1)] Cons by simp_all
      have sr: "set rest = set (f_frontier st) - {u}" using ur Cons by auto
      have I1: "finv g s e ({u} \<times> set (getNeighbors (fst u) (snd u) g)) st1"
        unfolding st1_def by (rule finv_pop[OF less.prems(1) uin ne d sr])
      have r0: "f_order st = [] \<Longrightarrow> rest = []"
        using ginvD(6)[OF G] d ur by (cases rest) auto
      have O1: "oinv g ({u} \<times> set (getNeighbors (fst u) (snd u) g)) (f_order st1) (f_frontier st1)
                  (predOf (f_previousNodes st1)) D"
        unfolding st1_def using oinv_pop[OF O r0, of "{u} \<times> set (getNeighbors (fst u) (snd u) g)"]
          move_neighbor[of g u] by simp
      have n: "\<forall>w \<in> set (getNeighbors (fst u) (snd u) g). adjacent u w \<and> inBounds g w"
        using set_getNeighbors[of _ "fst u" "snd u" g] by simp
      have l: "f_order st1 \<noteq> []" "last (f_order st1) = u" by (simp_all add: st1_def)
      from discover_all_level[OF l n I1 O1] obtain st2 D2 where
        st2: "forEach (frontier_discover g u) st1 (getNeighbors (fst u) (snd u) g) = Some st2"
          "finv g s e {} st2" "f_order st2 = f_order st1"
          "oinv g {} (f_order st2) (f_frontier st2) (predOf (f_previousNodes st2)) D2"
        by blast
      have "length (f_order st2) \<le> length g * length (hd g)" by (rule finv_order_bound[OF st2(2)])
      then have m: "length g * length (hd g) - length (f_order st2) < length g * length (hd g) - length (f_order st)"
        using st2(3) by (simp add: st1_def)
      have "bfs_loop g e st = bfs_loop g e st2"
        using Cons ne st2(1)
        by (subst bfs_loop.simps) (simp add: Let_def st1_def[symmetric] coord_eq)
      then show ?thesis using less.hyps[OF m st2(2) st2(4)] by simp
    qed
  qed
qed

lemma rectangular_valid: "rectangular g \<Longrightarrow> \<not> invalidInput (Some g) (Some s) (Some e)"
  by (simp add: valid_not_invalid rectangular_def)

lemma frontier_init_ok:
  assumes r: "rectangular g" and s: "inBounds g s" and e: "inBounds g e"
  shows "\<exists>st0. frontier_init g s = Some st0 \<and> finv g s e {} st0
           \<and> oinv g {} (f_order st0) (f_frontier st0) (predOf (f_previousNodes st0)) (\<lambda>_. 0)"
proof -
  let ?R = "length g" and ?C = "length (hd g)"
  define st0 where "st0 = \<lparr>f_order = [], f_frontier = [s],
      f_visited = upd2 (newArray2 g False) s True, f_previousNodes = newArray2 g None\<rparr>"
  have i: "inb ?R ?C s" using s by (simp add: inBounds_inb)
  have 1: "frontier_init g s = Some st0"
    by (simp add: frontier_init_def write2_new[OF s] st0_def)
  have V: "\<forall>w. inBounds g w \<longrightarrow> get2 (upd2 (newArray2 g False) s True) w = (w \<in> set [] \<union> set [s])"
  proof (intro allI impI)
    fix w assume "inBounds g w"
    then have w: "inb ?R ?C w" by (simp add: inBounds_inb)
    show "get2 (upd2 (newArray2 g False) s True) w = (w \<in> set [] \<union> set [s])"
      using get2_upd2[OF dims_newArray2 i w, of False True] get2_newArray2[OF w, of False] by auto
  qed
  have 2: "finv g s e {} st0"
    unfolding finv_def st0_def
    using r e dims_upd2[OF dims_newArray2, of g False s True] dims_newArray2[of g "None :: coord option"]
      ginv_init[OF s, of e] V
    by (simp add: predOf_new)
  have 3: "oinv g {} (f_order st0) (f_frontier st0) (predOf (f_previousNodes st0)) (\<lambda>_. 0)"
    using oinv_init[of g s] by (simp add: st0_def predOf_new)
  show ?thesis using 1 2 3 by blast
qed

theorem bfs_total:
  assumes r: "rectangular g" and s: "inBounds g s" and e: "inBounds g e"
  shows "\<exists>res. bfs (Some g) (Some s) (Some e) = Some res
           \<and> gfinal g s e (visitedNodesInOrder res) (shortestPath res)
           \<and> (\<forall>ws. route g s ws e \<longrightarrow> length (shortestPath res) \<le> length ws)"
proof -
  obtain st0 where st0: "frontier_init g s = Some st0" "finv g s e {} st0"
      "oinv g {} (f_order st0) (f_frontier st0) (predOf (f_previousNodes st0)) (\<lambda>_. 0)"
    using frontier_init_ok[OF r s e] by blast
  obtain st' ys where l: "bfs_loop g e st0 = Some st'"
      "getNodesInShortestPathOrder (f_previousNodes st') e = Some ys"
      "gfinal g s e (f_order st') ys" "pchain (predOf (f_previousNodes st')) e ys"
      "shortest g s (f_order st') (predOf (f_previousNodes st'))"
    using bfs_loop_total[OF st0(2,3)] by blast
  have b: "bfs (Some g) (Some s) (Some e) = Some \<lparr>visitedNodesInOrder = f_order st', shortestPath = ys\<rparr>"
    using rectangular_valid[OF r] st0(1) l(1,2) by (simp add: bfs_def frontier_result_def)
  have "length ys \<le> length ws" if rt: "route g s ws e" for ws
  proof -
    have "reachable g s e" using rt unfolding reachable_def by blast
    then have "e \<in> set (f_order st')" using l(3) unfolding gfinal_def by blast
    then obtain xs where xs: "pchain (predOf (f_previousNodes st')) e xs"
        "\<forall>ws. route g s ws e \<longrightarrow> length xs \<le> length ws"
      using l(5) unfolding shortest_def by blast
    have "xs = ys" using pchain_fun[OF xs(1) l(4)] .
    then show ?thesis using xs(2) rt by blast
  qed
  then show ?thesis using b l(3) by simp
qed

theorem dfs_total:
  assumes r: "rectangular g" and s: "inBounds g s" and e: "inBounds g e"
  shows "\<exists>res. dfs (Some g) (Some s) (Some e) = Some res
           \<and> gfinal g s e (visitedNodesInOrder res) (shortestPath res)"
proof -
  obtain st0 where st0: "frontier_init g s = Some st0" "finv g s e {} st0"
    using frontier_init_ok[OF r s e] by blast
  obtain st' ys where l: "dfs_loop g e st0 = Some st'"
      "getNodesInShortestPathOrder (f_previousNodes st') e = Some ys"
      "gfinal g s e (f_order st') ys"
    using dfs_loop_total[OF st0(2)] by blast
  have "dfs (Some g) (Some s) (Some e) = Some \<lparr>visitedNodesInOrder = f_order st', shortestPath = ys\<rparr>"
    using rectangular_valid[OF r] st0(1) l(1,2) by (simp add: dfs_def frontier_result_def)
  then show ?thesis using l(3) by simp
qed

section \<open>Dijkstra\<close>

lemma hasNode_iff: "hasNode q (fst w) (snd w) \<longleftrightarrow> w \<in> set (map fst q)"
  by (force simp: hasNode_def list_ex_iff prod_eq_iff)

lemma pq_sort_snoc:
  assumes "sorted (map snd q)" and "\<forall>x \<in> set q. snd x \<le> p"
  shows "enqueue q v p = q @ [(v, p)]"
proof -
  have "sorted (map snd (q @ [(v, p)]))" using assms by (auto simp: sorted_append)
  then show ?thesis unfolding enqueue_def pq_sort_def by (rule sort_key_id_if_sorted)
qed

lemma dinvD:
  assumes "dinv g s e ex st D"
  shows "rectangular g" and "inBounds g e"
    and "dims (d_distances st) (length g) (length (hd g))"
    and "dims (d_previousNodes st) (length g) (length (hd g))"
    and "dims (d_visited st) (length g) (length (hd g))"
    and "ginv g s e ex (d_order st) (set (map fst (d_unvisitedNodes st))) (predOf (d_previousNodes st))"
    and "oinv g ex (d_order st) (map fst (d_unvisitedNodes st)) (predOf (d_previousNodes st)) D"
    and "distinct (map fst (d_unvisitedNodes st))"
    and "set (map fst (d_unvisitedNodes st)) \<inter> set (d_order st) = {}"
    and "\<And>w. inBounds g w \<Longrightarrow> get2 (d_visited st) w = (w \<in> set (d_order st))"
    and "\<And>w. inBounds g w \<Longrightarrow> get2 (d_distances st) w =
            (if w \<in> set (d_order st) \<union> set (map fst (d_unvisitedNodes st)) then enat (D w) else \<infinity>)"
    and "map snd (d_unvisitedNodes st) = map (\<lambda>w. enat (D w)) (map fst (d_unvisitedNodes st))"
  using assms unfolding dinv_def by blast+

lemma dinvI:
  assumes "rectangular g" and "inBounds g e"
    and "dims dists (length g) (length (hd g))"
    and "dims prev (length g) (length (hd g))"
    and "dims visited (length g) (length (hd g))"
    and "ginv g s e ex vis (set (map fst Q)) (predOf prev)"
    and "oinv g ex vis (map fst Q) (predOf prev) D"
    and "distinct (map fst Q)"
    and "set (map fst Q) \<inter> set vis = {}"
    and "\<And>w. inBounds g w \<Longrightarrow> get2 visited w = (w \<in> set vis)"
    and "\<And>w. inBounds g w \<Longrightarrow> get2 dists w =
            (if w \<in> set vis \<union> set (map fst Q) then enat (D w) else \<infinity>)"
    and "map snd Q = map (\<lambda>w. enat (D w)) (map fst Q)"
  shows "dinv g s e ex \<lparr>d_order = vis, d_unvisitedNodes = Q, d_distances = dists,
            d_previousNodes = prev, d_visited = visited\<rparr> D"
  unfolding dinv_def using assms by simp

lemma relax_eq:
  assumes "rectangular g" "inBounds g w" "inBounds g u"
    and "dims (d_distances st) (length g) (length (hd g))"
    and "dims (d_previousNodes st) (length g) (length (hd g))"
    and "dims (d_visited st) (length g) (length (hd g))"
  shows "dijkstra_relax g u st w = Some (relaxed g u st w)"
proof -
  have i: "inb (length g) (length (hd g)) w" using assms(2) by (simp add: inBounds_inb)
  have j: "inb (length g) (length (hd g)) u" using assms(3) by (simp add: inBounds_inb)
  have 1: "read2 (d_visited st) w = Some (get2 (d_visited st) w)" using read2_dims[OF assms(6) i] .
  have 2: "read2 g w = Some (get2 g w)" using read2_dims[OF dims_rectangular[OF assms(1)] i] .
  have 3: "read2 (d_distances st) u = Some (get2 (d_distances st) u)" using read2_dims[OF assms(4) j] .
  have 4: "read2 (d_distances st) w = Some (get2 (d_distances st) w)" using read2_dims[OF assms(4) i] .
  have 5: "\<And>v. write2 (d_distances st) w v = Some (upd2 (d_distances st) w v)"
    using write2_dims[OF assms(4) i] .
  have 6: "\<And>v. write2 (d_previousNodes st) w v = Some (upd2 (d_previousNodes st) w v)"
    using write2_dims[OF assms(5) i] .
  show ?thesis
    unfolding dijkstra_relax_def relaxed_def by (simp add: 1 2 3 4 5 6 wallAt_get2 Let_def)
qed

lemma relaxed_order: "d_order (relaxed g u st w) = d_order st"
  by (simp add: relaxed_def)

lemma sorted_map_enat: "sorted (map D xs) \<Longrightarrow> sorted (map (\<lambda>w. enat (D w)) xs)"
  by (induction xs) auto

lemma relaxed_dinv:
  assumes I: "dinv g s e (insert (u, w) ex) st D"
    and l: "d_order st \<noteq> []" "last (d_order st) = u"
    and a: "adjacent u w" and b: "inBounds g w"
  shows "\<exists>D'. dinv g s e ex (relaxed g u st w) D'"
proof -
  note N = dinvD[OF I]
  let ?vis = "d_order st" and ?Q = "d_unvisitedNodes st" and ?P = "predOf (d_previousNodes st)"
  have uv: "u \<in> set ?vis" using l by auto
  have ub: "inBounds g u" using ginvD(4)[OF N(6)] uv by simp
  have du: "get2 (d_distances st) u = enat (D u)" using N(11)[OF ub] uv by simp
  have st: "st = \<lparr>d_order = ?vis, d_unvisitedNodes = ?Q, d_distances = d_distances st,
            d_previousNodes = d_previousNodes st, d_visited = d_visited st\<rparr>" by simp
  have skip: "dinv g s e ex st D" if n: "\<not> move g u w \<or> w \<in> set ?vis \<union> set (map fst ?Q)"
  proof -
    have G: "ginv g s e ex ?vis (set (map fst ?Q)) ?P" using ginv_skip[OF N(6) n] .
    have O: "oinv g ex ?vis (map fst ?Q) ?P D" using oinv_skip[OF N(7) l n] .
    show ?thesis by (subst st, rule dinvI) (use N G O in auto)
  qed
  show ?thesis
  proof (cases "get2 (d_visited st) w \<or> wallAt g w")
    case True
    then have "\<not> move g u w \<or> w \<in> set ?vis \<union> set (map fst ?Q)"
      using N(10)[OF b] by (auto simp: move_def)
    from skip[OF this] show ?thesis using True by (auto simp: relaxed_def)
  next
    case False
    then have nv: "w \<notin> set ?vis" and m: "move g u w" using N(10)[OF b] a b by (simp_all add: move_def)
    show ?thesis
    proof (cases "w \<in> set (map fst ?Q)")
      case True
      have "D w \<le> D (last ?vis) + 1" using oinvD(4)[OF N(7) l(1) True] .
      then have "\<not> get2 (d_distances st) u + 1 < get2 (d_distances st) w"
        using N(11)[OF b] True du l(2) by (simp add: one_enat_def)
      then have "relaxed g u st w = st" by (simp add: relaxed_def)
      then show ?thesis using skip True by auto
    next
      case nq: False
      have nw: "w \<notin> set ?vis \<union> set (map fst ?Q)" using nv nq by simp
      have dw: "get2 (d_distances st) w = \<infinity>" using N(11)[OF b] nw by simp
      have lt: "get2 (d_distances st) u + 1 < get2 (d_distances st) w" using du dw by (simp add: one_enat_def)
      have nd: "get2 (d_distances st) u + 1 = enat (D u + 1)" using du by (simp add: one_enat_def)
      have "sorted (map D (map fst ?Q))" using oinvD(3)[OF N(7)] by (simp add: sorted_append)
      then have "sorted (map (\<lambda>w. enat (D w)) (map fst ?Q))" by (rule sorted_map_enat)
      then have srt: "sorted (map snd ?Q)" by (simp only: N(12))
      have le: "\<forall>x \<in> set ?Q. snd x \<le> enat (D u + 1)"
      proof
        fix x assume x: "x \<in> set ?Q"
        then have "fst x \<in> set (map fst ?Q)" by simp
        then have 1: "D (fst x) \<le> D u + 1" using oinvD(4)[OF N(7) l(1)] l(2) by simp
        from N(12) have "\<forall>x \<in> set ?Q. snd x = enat (D (fst x))" by simp
        then have "snd x = enat (D (fst x))" using x by blast
        then show "snd x \<le> enat (D u + 1)" using 1 by simp
      qed
      have enq: "enqueue ?Q w (enat (D u + 1)) = ?Q @ [(w, enat (D u + 1))]"
        by (rule pq_sort_snoc[OF srt le])
      have hn: "\<not> hasNode ?Q (fst w) (snd w)" using nq by (simp add: hasNode_iff)
      have eq: "relaxed g u st w = \<lparr>d_order = ?vis, d_unvisitedNodes = ?Q @ [(w, enat (D u + 1))],
            d_distances = upd2 (d_distances st) w (enat (D u + 1)),
            d_previousNodes = upd2 (d_previousNodes st) w (Some u), d_visited = d_visited st\<rparr>"
        using False lt hn enq nd by (simp add: relaxed_def)
      let ?R = "length g" and ?C = "length (hd g)"
      have i: "inb ?R ?C w" using b by (simp add: inBounds_inb)
      have P: "predOf (upd2 (d_previousNodes st) w (Some u)) = ?P(w := Some u)"
        using predOf_upd2[OF N(4) i] .
      have G: "ginv g s e ex ?vis (insert w (set (map fst ?Q))) (?P(w := Some u))"
        using ginv_add[OF N(6) uv m nv] .
      have pv: "\<And>x p. ?P x = Some p \<Longrightarrow> p \<in> set ?vis" using ginvD(8)[OF N(6)] by blast
      have O: "oinv g ex ?vis (map fst ?Q @ [w]) (?P(w := Some u)) (D(w := D u + 1))"
        by (rule oinv_add[OF N(7) l nw]) (rule pv)
      have "dinv g s e ex (relaxed g u st w) (D(w := D u + 1))"
        unfolding eq
      proof (rule dinvI)
        show "rectangular g" "inBounds g e" by (rule N(1), rule N(2))
        show "dims (upd2 (d_distances st) w (enat (D u + 1))) ?R ?C" using dims_upd2[OF N(3)] .
        show "dims (upd2 (d_previousNodes st) w (Some u)) ?R ?C" using dims_upd2[OF N(4)] .
        show "dims (d_visited st) ?R ?C" by (rule N(5))
        show "ginv g s e ex ?vis (set (map fst (?Q @ [(w, enat (D u + 1))])))
                (predOf (upd2 (d_previousNodes st) w (Some u)))"
          using G P by simp
        show "oinv g ex ?vis (map fst (?Q @ [(w, enat (D u + 1))]))
                (predOf (upd2 (d_previousNodes st) w (Some u))) (D(w := D u + 1))"
          using O P by simp
        show "distinct (map fst (?Q @ [(w, enat (D u + 1))]))" using N(8) nq by simp
        show "set (map fst (?Q @ [(w, enat (D u + 1))])) \<inter> set ?vis = {}" using N(9) nv by simp
        show "get2 (d_visited st) x = (x \<in> set ?vis)" if "inBounds g x" for x using N(10)[OF that] .
        show "get2 (upd2 (d_distances st) w (enat (D u + 1))) x =
               (if x \<in> set ?vis \<union> set (map fst (?Q @ [(w, enat (D u + 1))]))
                then enat ((D(w := D u + 1)) x) else \<infinity>)" if x: "inBounds g x" for x
        proof -
          have "inb ?R ?C x" using x by (simp add: inBounds_inb)
          from get2_upd2[OF N(3) i this] show ?thesis using N(11)[OF x] by auto
        qed
        have "map (\<lambda>x. enat ((D(w := D u + 1)) x)) (map fst ?Q) = map (\<lambda>x. enat (D x)) (map fst ?Q)"
          using nq by (intro map_cong) auto
        then show "map snd (?Q @ [(w, enat (D u + 1))]) =
            map (\<lambda>x. enat ((D(w := D u + 1)) x)) (map fst (?Q @ [(w, enat (D u + 1))]))"
          using N(12) by simp
      qed
      then show ?thesis by blast
    qed
  qed
qed

lemma relax_all:
  assumes l: "d_order st \<noteq> []" "last (d_order st) = u"
    and n: "\<forall>w \<in> set ws. adjacent u w \<and> inBounds g w"
    and I: "dinv g s e ({u} \<times> set ws) st D"
  shows "\<exists>st' D'. forEach (dijkstra_relax g u) st ws = Some st' \<and> dinv g s e {} st' D'
            \<and> d_order st' = d_order st"
  using assms
proof (induction ws arbitrary: st D)
  case Nil
  then show ?case by auto
next
  case (Cons w ws)
  have e: "{u} \<times> set (w # ws) = insert (u, w) ({u} \<times> set ws)" by auto
  have I': "dinv g s e (insert (u, w) ({u} \<times> set ws)) st D" using Cons.prems(4) e by simp
  note N = dinvD[OF I']
  have uo: "u \<in> set (d_order st)" using Cons.prems(1,2) by auto
  have ub: "inBounds g u" using ginvD(4)[OF N(6)] uo by simp
  have a: "adjacent u w" and b: "inBounds g w" using Cons.prems(3) by auto
  have 1: "dijkstra_relax g u st w = Some (relaxed g u st w)"
    using relax_eq[OF N(1) b ub N(3,4,5)] .
  obtain D' where 2: "dinv g s e ({u} \<times> set ws) (relaxed g u st w) D'"
    using relaxed_dinv[OF I' Cons.prems(1,2) a b] by blast
  have 4: "d_order (relaxed g u st w) \<noteq> []" "last (d_order (relaxed g u st w)) = u"
    using Cons.prems(1,2) by (simp_all add: relaxed_order)
  have 5: "\<forall>w \<in> set ws. adjacent u w \<and> inBounds g w" using Cons.prems(3) by simp
  from Cons.IH[OF 4 5 2] show ?case using 1 by (simp add: relaxed_order)
qed

lemma dinv_pop:
  assumes I: "dinv g s e {} st D" and q: "d_unvisitedNodes st = (u, p) # rest" and ne: "u \<noteq> e"
  shows "dinv g s e ({u} \<times> set (getNeighbors (fst u) (snd u) g))
           \<lparr>d_order = d_order st @ [u], d_unvisitedNodes = rest, d_distances = d_distances st,
            d_previousNodes = d_previousNodes st, d_visited = upd2 (d_visited st) u True\<rparr> D"
proof (rule dinvI)
  note N = dinvD[OF I]
  let ?R = "length g" and ?C = "length (hd g)"
  let ?ex = "{u} \<times> set (getNeighbors (fst u) (snd u) g)"
  have uin: "u \<in> set (map fst (d_unvisitedNodes st))" using q by simp
  have nv: "u \<notin> set (d_order st)" using N(9) uin by auto
  have ur: "u \<notin> set (map fst rest)" and dr: "distinct (map fst rest)" using N(8) q by simp_all
  have ub: "inBounds g u" using ginvD(4)[OF N(6)] uin by blast
  then have i: "inb ?R ?C u" by (simp add: inBounds_inb)
  show "rectangular g" "inBounds g e" by (rule N(1), rule N(2))
  show "dims (d_distances st) ?R ?C" by (rule N(3))
  show "dims (d_previousNodes st) ?R ?C" by (rule N(4))
  show "dims (upd2 (d_visited st) u True) ?R ?C" by (rule dims_upd2[OF N(5)])
  show "ginv g s e ?ex (d_order st @ [u]) (set (map fst rest)) (predOf (d_previousNodes st))"
    by (rule ginv_pop[OF N(6) uin nv ne]) (use q move_neighbor in auto)
  have r0: "d_order st = [] \<Longrightarrow> map fst rest = []"
  proof -
    assume "d_order st = []"
    then have "set (map fst (d_unvisitedNodes st)) = {s}" using ginvD(6)[OF N(6)] by simp
    then have "set (map fst rest) \<subseteq> {u}" using q by auto
    then show "map fst rest = []" using ur by (cases rest) auto
  qed
  have O: "oinv g {} (d_order st) (u # map fst rest) (predOf (d_previousNodes st)) D"
    using N(7) q by simp
  show "oinv g ?ex (d_order st @ [u]) (map fst rest) (predOf (d_previousNodes st)) D"
    by (rule oinv_pop[OF O r0]) (use move_neighbor in auto)
  show "distinct (map fst rest)" by (rule dr)
  show "set (map fst rest) \<inter> set (d_order st @ [u]) = {}" using N(9) q ur by auto
  show "get2 (upd2 (d_visited st) u True) w = (w \<in> set (d_order st @ [u]))" if w: "inBounds g w" for w
  proof -
    have "inb ?R ?C w" using w by (simp add: inBounds_inb)
    from get2_upd2[OF N(5) i this] show ?thesis using N(10)[OF w] by auto
  qed
  show "get2 (d_distances st) w =
         (if w \<in> set (d_order st @ [u]) \<union> set (map fst rest) then enat (D w) else \<infinity>)"
    if w: "inBounds g w" for w
    using N(11)[OF w] q by auto
  show "map snd rest = map (\<lambda>w. enat (D w)) (map fst rest)" using N(12) q by simp
qed

lemma dinv_order_bound:
  assumes "dinv g s e ex st D"
  shows "length (d_order st) \<le> length g * length (hd g)"
proof -
  note G = ginvD[OF dinvD(6)[OF assms]]
  show ?thesis by (rule inb_count[OF G(1)]) (use G(4) in \<open>auto simp: inBounds_inb\<close>)
qed

lemma dinv_dshort:
  assumes I: "dinv g s e ex st D" and sh: "shortest g s vis (predOf (d_previousNodes st))"
    and sub: "set vis \<subseteq> set (d_order st) \<union> set (map fst (d_unvisitedNodes st))"
  shows "dshort g s vis (predOf (d_previousNodes st)) (d_distances st)"
  unfolding dshort_def
proof
  note N = dinvD[OF I]
  fix v assume v: "v \<in> set vis"
  then have vd: "v \<in> set (d_order st) \<union> set (map fst (d_unvisitedNodes st))" using sub by blast
  obtain xs where xs: "pchain (predOf (d_previousNodes st)) v xs"
      "\<exists>ws. route g s ws v \<and> length ws = length xs"
      "\<forall>ws. route g s ws v \<longrightarrow> length xs \<le> length ws"
    using sh v unfolding shortest_def by blast
  obtain zs where zs: "pchain (predOf (d_previousNodes st)) v zs" "length zs = D v"
    using oinvD(1)[OF N(7) vd] by blast
  have "zs = xs" using pchain_fun[OF zs(1) xs(1)] .
  moreover have "inBounds g v" using ginvD(4)[OF N(6) vd] .
  ultimately have "get2 (d_distances st) v = enat (length xs)" using N(11)[of v] vd zs(2) by simp
  then show "\<exists>xs. pchain (predOf (d_previousNodes st)) v xs \<and> get2 (d_distances st) v = enat (length xs)
          \<and> (\<exists>ws. route g s ws v \<and> length ws = length xs)
          \<and> (\<forall>ws. route g s ws v \<longrightarrow> length xs \<le> length ws)"
    using xs by blast
qed

lemma dinv_chain_result:
  assumes I: "dinv g s e ex st D" and c: "pchain (predOf (d_previousNodes st)) e ys"
    and sub: "set ys \<subseteq> set (d_order st) \<union> set (map fst (d_unvisitedNodes st))"
  shows "getNodesInShortestPathOrder (d_previousNodes st) e = Some ys"
proof -
  note N = dinvD[OF I]
  have "\<forall>x \<in> insert e (set ys). inb (length g) (length (hd g)) x"
    using sub ginvD(4)[OF N(6)] N(2) by (auto simp: inBounds_inb)
  from getNodes_chain[OF N(4) c this] show ?thesis .
qed

lemma dijkstra_loop_total:
  "dinv g s e {} st D \<Longrightarrow>
     \<exists>st' ys. dijkstra_loop g e st = Some st'
        \<and> getNodesInShortestPathOrder (d_previousNodes st') e = Some ys
        \<and> gfinal g s e (d_order st') ys \<and> pchain (predOf (d_previousNodes st')) e ys
        \<and> dshort g s (d_order st') (predOf (d_previousNodes st')) (d_distances st')
        \<and> dims (d_distances st') (length g) (length (hd g))"
proof (induction "length g * length (hd g) - length (d_order st)" arbitrary: st D rule: less_induct)
  case less
  note N = dinvD[OF less.prems]
  let ?P = "predOf (d_previousNodes st)"
  show ?case
  proof (cases "d_unvisitedNodes st")
    case Nil
    have 1: "dijkstra_loop g e st = Some st" using Nil by (subst dijkstra_loop.simps) (simp add: isEmpty_def)
    have G: "ginv g s e {} (d_order st) {} ?P" using N(6) Nil by simp
    have O: "oinv g {} (d_order st) [] ?P D" using N(7) Nil by simp
    from ginv_exhaust[OF G] have c: "pchain ?P e []" "gfinal g s e (d_order st) []" by auto
    have 2: "getNodesInShortestPathOrder (d_previousNodes st) e = Some []"
      by (rule dinv_chain_result[OF less.prems c(1)]) simp
    have 3: "dshort g s (d_order st) ?P (d_distances st)"
      by (rule dinv_dshort[OF less.prems oinv_shortest_empty[OF G O]]) simp
    show ?thesis using 1 2 3 c N(3) by blast
  next
    case (Cons item rest)
    obtain u p where item: "item = (u, p)" by (cases item)
    have q: "d_unvisitedNodes st = (u, p) # rest" using Cons item by simp
    have uin: "u \<in> set (map fst (d_unvisitedNodes st))" using q by simp
    have nv: "u \<notin> set (d_order st)" using N(9) uin by auto
    have ub: "inBounds g u" using ginvD(4)[OF N(6)] uin by blast
    then have i: "inb (length g) (length (hd g)) u" by (simp add: inBounds_inb)
    have r1: "read2 (d_visited st) u = Some False"
      using read2_dims[OF N(5) i] N(10)[OF ub] nv by simp
    have w1: "write2 (d_visited st) u True = Some (upd2 (d_visited st) u True)"
      using write2_dims[OF N(5) i] .
    define st1 where "st1 = \<lparr>d_order = d_order st @ [u], d_unvisitedNodes = rest,
        d_distances = d_distances st, d_previousNodes = d_previousNodes st,
        d_visited = upd2 (d_visited st) u True\<rparr>"
    have st1: "st\<lparr>d_unvisitedNodes := rest, d_visited := upd2 (d_visited st) u True,
                   d_order := d_order st @ [u]\<rparr> = st1"
      by (simp add: st1_def)
    have G: "ginv g s e {} (d_order st) (set (u # map fst rest)) ?P" using N(6) q by simp
    have O: "oinv g {} (d_order st) (u # map fst rest) ?P D" using N(7) q by simp
    show ?thesis
    proof (cases "u = e")
      case True
      have 1: "dijkstra_loop g e st = Some st1"
        using q r1 w1
        by (subst dijkstra_loop.simps) (simp add: isEmpty_def Let_def st1 coord_eq True[symmetric])
      have ein: "e \<in> set (map fst (d_unvisitedNodes st))" using uin True by simp
      obtain ys where ys: "pchain ?P e ys" "gfinal g s e (d_order st @ [e]) ys"
        using ginv_break[OF N(6) ein] by blast
      have sub: "set ys \<subseteq> set (d_order st) \<union> set (map fst (d_unvisitedNodes st))"
        using ys(2) uin True unfolding gfinal_def by auto
      have 2: "getNodesInShortestPathOrder (d_previousNodes st) e = Some ys"
        by (rule dinv_chain_result[OF less.prems ys(1) sub])
      have 3: "dshort g s (d_order st @ [u]) ?P (d_distances st)"
        by (rule dinv_dshort[OF less.prems oinv_shortest_break[OF G O]]) (use uin in auto)
      show ?thesis using 1 2 3 ys True N(3) by (auto simp: st1_def)
    next
      case ne: False
      have I1: "dinv g s e ({u} \<times> set (getNeighbors (fst u) (snd u) g)) st1 D"
        unfolding st1_def by (rule dinv_pop[OF less.prems q ne])
      have n: "\<forall>w \<in> set (getNeighbors (fst u) (snd u) g). adjacent u w \<and> inBounds g w"
        using set_getNeighbors[of _ "fst u" "snd u" g] by simp
      have l: "d_order st1 \<noteq> []" "last (d_order st1) = u" by (simp_all add: st1_def)
      from relax_all[OF l n I1] obtain st2 D2 where
        st2: "forEach (dijkstra_relax g u) st1 (getNeighbors (fst u) (snd u) g) = Some st2"
          "dinv g s e {} st2 D2" "d_order st2 = d_order st1"
        by blast
      have "length (d_order st2) \<le> length g * length (hd g)" by (rule dinv_order_bound[OF st2(2)])
      then have m: "length g * length (hd g) - length (d_order st2) < length g * length (hd g) - length (d_order st)"
        using st2(3) by (simp add: st1_def)
      have "dijkstra_loop g e st = dijkstra_loop g e st2"
        using q ne r1 w1 st2(1)
        by (subst dijkstra_loop.simps) (simp add: isEmpty_def Let_def st1 coord_eq)
      then show ?thesis using less.hyps[OF m st2(2)] by simp
    qed
  qed
qed

lemma dijkstra_init:
  assumes r: "rectangular g" and s: "inBounds g s" and e: "inBounds g e"
  shows "dinv g s e {} \<lparr>d_order = [], d_unvisitedNodes = [(s, 0)],
           d_distances = upd2 (newArray2 g \<infinity>) s 0,
           d_previousNodes = newArray2 g None, d_visited = newArray2 g False\<rparr> (\<lambda>_. 0)"
proof (rule dinvI)
  let ?R = "length g" and ?C = "length (hd g)"
  have i: "inb ?R ?C s" using s by (simp add: inBounds_inb)
  show "rectangular g" "inBounds g e" by (rule r, rule e)
  show "dims (upd2 (newArray2 g (\<infinity>::enat)) s 0) ?R ?C" by (rule dims_upd2[OF dims_newArray2])
  show "dims (newArray2 g (None :: coord option)) ?R ?C" by (rule dims_newArray2)
  show "dims (newArray2 g False) ?R ?C" by (rule dims_newArray2)
  show "ginv g s e {} [] (set (map fst [(s, 0::enat)])) (predOf (newArray2 g None))"
    using ginv_init[OF s, of e] by (simp add: predOf_new)
  show "oinv g {} [] (map fst [(s, 0::enat)]) (predOf (newArray2 g None)) (\<lambda>_. 0)"
    using oinv_init[of g s] by (simp add: predOf_new)
  show "distinct (map fst [(s, 0::enat)])" by simp
  show "set (map fst [(s, 0::enat)]) \<inter> set [] = {}" by simp
  show "get2 (newArray2 g False) w = (w \<in> set [])" if "inBounds g w" for w
    using that get2_newArray2[of g w False] by (simp add: inBounds_inb)
  show "get2 (upd2 (newArray2 g \<infinity>) s 0) w =
          (if w \<in> set [] \<union> set (map fst [(s, 0::enat)]) then enat ((\<lambda>_. 0) w) else \<infinity>)"
    if w: "inBounds g w" for w
  proof -
    have j: "inb ?R ?C w" using w by (simp add: inBounds_inb)
    show ?thesis
      using get2_upd2[OF dims_newArray2 i j, of "\<infinity>::enat" 0] get2_newArray2[OF j, of "\<infinity>::enat"]
      by (simp add: zero_enat_def)
  qed
  show "map snd [(s, 0::enat)] = map (\<lambda>w. enat ((\<lambda>_. 0) w)) (map fst [(s, 0::enat)])"
    by (simp add: zero_enat_def)
qed

theorem dijkstra_total:
  assumes r: "rectangular g" and s: "inBounds g s" and e: "inBounds g e"
  shows "\<exists>res. dijkstra (Some g) (Some s) (Some e) = Some res
           \<and> gfinal g s e (visitedNodesInOrder res) (shortestPath res)
           \<and> (\<forall>ws. route g s ws e \<longrightarrow> length (shortestPath res) \<le> length ws)
           \<and> (\<forall>v \<in> set (visitedNodesInOrder res). \<exists>n. read2 (distances res) v = Some (enat n)
                 \<and> (\<exists>ws. route g s ws v \<and> length ws = n)
                 \<and> (\<forall>ws. route g s ws v \<longrightarrow> n \<le> length ws))"
proof -
  let ?st0 = "\<lparr>d_order = [], d_unvisitedNodes = [(s, 0)],
           d_distances = upd2 (newArray2 g \<infinity>) s 0,
           d_previousNodes = newArray2 g None, d_visited = newArray2 g False\<rparr>"
  obtain st' ys where l: "dijkstra_loop g e ?st0 = Some st'"
      "getNodesInShortestPathOrder (d_previousNodes st') e = Some ys"
      "gfinal g s e (d_order st') ys" "pchain (predOf (d_previousNodes st')) e ys"
      "dshort g s (d_order st') (predOf (d_previousNodes st')) (d_distances st')"
      "dims (d_distances st') (length g) (length (hd g))"
    using dijkstra_loop_total[OF dijkstra_init[OF r s e]] by blast
  define res where "res = \<lparr>visitedNodesInOrder = d_order st', shortestPath = ys,
      distances = d_distances st'\<rparr>"
  have b: "dijkstra (Some g) (Some s) (Some e) = Some res"
    using rectangular_valid[OF r] l(1,2) write2_new[OF s, of "\<infinity>::enat" 0]
    by (simp add: dijkstra_def res_def)
  have mn: "length ys \<le> length ws" if rt: "route g s ws e" for ws
  proof -
    have "reachable g s e" using rt unfolding reachable_def by blast
    then have "e \<in> set (d_order st')" using l(3) unfolding gfinal_def by blast
    then obtain xs where xs: "pchain (predOf (d_previousNodes st')) e xs"
        "\<forall>ws. route g s ws e \<longrightarrow> length xs \<le> length ws"
      using l(5) unfolding dshort_def by blast
    have "xs = ys" using pchain_fun[OF xs(1) l(4)] .
    then show ?thesis using xs(2) rt by blast
  qed
  have ds: "\<exists>n. read2 (distances res) v = Some (enat n)
                 \<and> (\<exists>ws. route g s ws v \<and> length ws = n)
                 \<and> (\<forall>ws. route g s ws v \<longrightarrow> n \<le> length ws)"
    if v: "v \<in> set (visitedNodesInOrder res)" for v
  proof -
    have vv: "v \<in> set (d_order st')" using v by (simp add: res_def)
    from l(5) vv have "\<exists>xs. pchain (predOf (d_previousNodes st')) v xs
             \<and> get2 (d_distances st') v = enat (length xs)
             \<and> (\<exists>ws. route g s ws v \<and> length ws = length xs)
             \<and> (\<forall>ws. route g s ws v \<longrightarrow> length xs \<le> length ws)"
      unfolding dshort_def by (rule bspec)
    then obtain xs :: "coord list" where xs: "get2 (d_distances st') v = enat (length xs)"
        "\<exists>ws. route g s ws v \<and> length ws = length xs"
        "\<forall>ws. route g s ws v \<longrightarrow> length xs \<le> length ws"
      by blast
    have "inBounds g v" using l(3) vv unfolding gfinal_def by blast
    then have "read2 (d_distances st') v = Some (get2 (d_distances st') v)"
      using read2_dims[OF l(6)] by (simp add: inBounds_inb)
    then have "read2 (distances res) v = Some (enat (length xs))" using xs(1) by (simp add: res_def)
    then show ?thesis using xs(2,3) by blast
  qed
  have "gfinal g s e (visitedNodesInOrder res) (shortestPath res)" using l(3) by (simp add: res_def)
  moreover have "\<forall>ws. route g s ws e \<longrightarrow> length (shortestPath res) \<le> length ws"
    using mn by (simp add: res_def)
  ultimately show ?thesis using b ds by blast
qed

section \<open>Reading the final facts\<close>

lemma gfinal_route:
  assumes "gfinal g s e vis ys" and "reachable g s e"
  shows "\<exists>ws. route g s ws e \<and> length ws = length ys"
proof (cases "ys = []")
  case True
  then have "e = s" using assms unfolding gfinal_def by blast
  then show ?thesis using True route_refl[of g s] by auto
next
  case False
  then obtain ws where "ys @ [e] = s # ws" "walk g s ws" using assms(1) unfolding gfinal_def by blast
  then show ?thesis using chain_route_length by blast
qed

lemma gfinal_unreachable: "gfinal g s e vis ys \<Longrightarrow> \<not> reachable g s e \<Longrightarrow> ys = []"
  unfolding gfinal_def by blast

section \<open>The priority queue keeps its entries\<close>

lemma set_enqueue: "set (enqueue q v p) = insert (v, p) (set q)"
  by (simp add: enqueue_def pq_sort_def)

lemma sorted_enqueue: "sorted (map snd (enqueue q v p))"
  by (simp add: enqueue_def pq_sort_def)

lemma distinct_enqueue:
  assumes "distinct (map fst q)" and "v \<notin> set (map fst q)"
  shows "distinct (map fst (enqueue q v p))"
proof -
  have "distinct (map fst (q @ [(v, p)]))" using assms by simp
  then have "distinct (q @ [(v, p)]) \<and> inj_on fst (set (q @ [(v, p)]))"
    unfolding distinct_map .
  then have "distinct (sort_key snd (q @ [(v, p)])) \<and> inj_on fst (set (sort_key snd (q @ [(v, p)])))"
    by (simp only: distinct_sort set_sort)
  then show ?thesis unfolding enqueue_def pq_sort_def distinct_map .
qed

lemma sorted_tail: "sorted (map snd (x # q)) \<Longrightarrow> sorted (map snd q)"
  by simp

section \<open>A*\<close>

lemma ainvD:
  assumes "ainv g s e ex st"
  shows "rectangular g" and "inBounds g e"
    and "dims (a_gScore st) (length g) (length (hd g))"
    and "dims (a_fScore st) (length g) (length (hd g))"
    and "dims (a_previousNodes st) (length g) (length (hd g))"
    and "ginv g s e ex (a_order st) (set (map fst (a_openSet st))) (predOf (a_previousNodes st))"
    and "distinct (map fst (a_openSet st))"
    and "set (map fst (a_openSet st)) \<inter> set (a_order st) = {}"
    and "a_closedSet st = set (a_order st)"
    and "\<And>w. inBounds g w \<Longrightarrow>
            (get2 (a_gScore st) w \<noteq> \<infinity>) = (w \<in> set (a_order st) \<union> set (map fst (a_openSet st)))"
    and "\<And>w. w \<in> set (a_order st) \<union> set (map fst (a_openSet st)) \<Longrightarrow>
            \<exists>xs. pchain (predOf (a_previousNodes st)) w xs \<and> get2 (a_gScore st) w = enat (length xs)"
  using assms unfolding ainv_def by blast+

lemma ascoreD:
  assumes "ascore g s e st"
  shows "sorted (map snd (a_openSet st))"
    and "\<And>x. x \<in> set (a_openSet st) \<Longrightarrow>
            get2 (a_gScore st) (fst x) + enat (manhattanDistance (fst x) e) \<le> snd x"
    and "a_order st = [] \<Longrightarrow> a_openSet st = [(s, enat (manhattanDistance s e))]"
    and "\<And>c. noWalls g \<Longrightarrow> c \<in> set (a_order st) \<Longrightarrow>
            get2 (a_gScore st) c + enat (manhattanDistance c e) = enat (manhattanDistance s e)"
    and "\<And>x. noWalls g \<Longrightarrow> x \<in> set (a_openSet st) \<Longrightarrow>
            (\<forall>c \<in> set (a_order st). manhattanDistance (fst x) e < manhattanDistance c e)
            \<Longrightarrow> snd x = enat (manhattanDistance s e)"
  using assms unfolding ascore_def by blast+

lemma ainvI:
  assumes "rectangular g" and "inBounds g e"
    and "dims gs (length g) (length (hd g))"
    and "dims fs (length g) (length (hd g))"
    and "dims prev (length g) (length (hd g))"
    and "ginv g s e ex vis (set (map fst Q)) (predOf prev)"
    and "distinct (map fst Q)"
    and "set (map fst Q) \<inter> set vis = {}"
    and "cl = set vis"
    and "\<And>w. inBounds g w \<Longrightarrow> (get2 gs w \<noteq> \<infinity>) = (w \<in> set vis \<union> set (map fst Q))"
    and "\<And>w. w \<in> set vis \<union> set (map fst Q) \<Longrightarrow>
            \<exists>xs. pchain (predOf prev) w xs \<and> get2 gs w = enat (length xs)"
  shows "ainv g s e ex \<lparr>a_order = vis, a_openSet = Q, a_closedSet = cl, a_gScore = gs,
            a_fScore = fs, a_previousNodes = prev\<rparr>"
  unfolding ainv_def using assms by simp

lemma ascoreI:
  assumes "sorted (map snd Q)"
    and "\<And>x. x \<in> set Q \<Longrightarrow> get2 gs (fst x) + enat (manhattanDistance (fst x) e) \<le> snd x"
    and "vis = [] \<Longrightarrow> Q = [(s, enat (manhattanDistance s e))]"
    and "\<And>c. noWalls g \<Longrightarrow> c \<in> set vis \<Longrightarrow>
            get2 gs c + enat (manhattanDistance c e) = enat (manhattanDistance s e)"
    and "\<And>x. noWalls g \<Longrightarrow> x \<in> set Q \<Longrightarrow>
            (\<forall>c \<in> set vis. manhattanDistance (fst x) e < manhattanDistance c e)
            \<Longrightarrow> snd x = enat (manhattanDistance s e)"
  shows "ascore g s e \<lparr>a_order = vis, a_openSet = Q, a_closedSet = cl, a_gScore = gs,
            a_fScore = fs, a_previousNodes = prev\<rparr>"
  unfolding ascore_def using assms by simp

lemma arelax_eq:
  assumes "rectangular g" "inBounds g w" "inBounds g u"
    and "dims (a_gScore st) (length g) (length (hd g))"
    and "dims (a_fScore st) (length g) (length (hd g))"
    and "dims (a_previousNodes st) (length g) (length (hd g))"
  shows "astar_relax g e u st w = Some (arelaxed g e u st w)"
proof -
  have i: "inb (length g) (length (hd g)) w" using assms(2) by (simp add: inBounds_inb)
  have j: "inb (length g) (length (hd g)) u" using assms(3) by (simp add: inBounds_inb)
  have 2: "read2 g w = Some (get2 g w)" using read2_dims[OF dims_rectangular[OF assms(1)] i] .
  have 3: "read2 (a_gScore st) u = Some (get2 (a_gScore st) u)" using read2_dims[OF assms(4) j] .
  have 4: "read2 (a_gScore st) w = Some (get2 (a_gScore st) w)" using read2_dims[OF assms(4) i] .
  have 5: "\<And>v. write2 (a_gScore st) w v = Some (upd2 (a_gScore st) w v)"
    using write2_dims[OF assms(4) i] .
  have 6: "\<And>v. write2 (a_fScore st) w v = Some (upd2 (a_fScore st) w v)"
    using write2_dims[OF assms(5) i] .
  have 7: "\<And>v. write2 (a_previousNodes st) w v = Some (upd2 (a_previousNodes st) w v)"
    using write2_dims[OF assms(6) i] .
  show ?thesis
    unfolding astar_relax_def arelaxed_def by (simp add: 2 3 4 5 6 7 wallAt_get2 Let_def)
qed

lemma arelaxed_order: "a_order (arelaxed g e u st w) = a_order st"
  by (simp add: arelaxed_def)

lemma arelaxed_inv:
  assumes I: "ainv g s e (insert (u, w) ex) st" and S: "ascore g s e st"
    and l: "a_order st \<noteq> []" "last (a_order st) = u"
    and a: "adjacent u w" and b: "inBounds g w"
  shows "ainv g s e ex (arelaxed g e u st w) \<and> ascore g s e (arelaxed g e u st w)"
proof -
  note N = ainvD[OF I] and T = ascoreD[OF S]
  let ?vis = "a_order st" and ?Q = "a_openSet st" and ?P = "predOf (a_previousNodes st)"
  let ?R = "length g" and ?C = "length (hd g)"
  let ?h = "\<lambda>x. manhattanDistance x e"
  have uv: "u \<in> set ?vis" using l by auto
  have ub: "inBounds g u" using ginvD(4)[OF N(6)] uv by simp
  obtain xu where xu: "pchain ?P u xu" "get2 (a_gScore st) u = enat (length xu)"
    using N(11)[of u] uv by auto
  have st: "st = \<lparr>a_order = ?vis, a_openSet = ?Q, a_closedSet = a_closedSet st,
      a_gScore = a_gScore st, a_fScore = a_fScore st, a_previousNodes = a_previousNodes st\<rparr>"
    by simp
  have i: "inb ?R ?C w" using b by (simp add: inBounds_inb)
  have skip: "ainv g s e ex st" if n: "\<not> move g u w \<or> w \<in> set ?vis \<union> set (map fst ?Q)"
  proof -
    have G: "ginv g s e ex ?vis (set (map fst ?Q)) ?P" using ginv_skip[OF N(6) n] .
    show ?thesis by (subst st, rule ainvI) (use N G in auto)
  qed
  show ?thesis
  proof (cases "w \<in> a_closedSet st \<or> wallAt g w")
    case True
    then have "\<not> move g u w \<or> w \<in> set ?vis \<union> set (map fst ?Q)"
      using N(9) by (auto simp: move_def)
    from skip[OF this] show ?thesis using True S by (auto simp: arelaxed_def)
  next
    case False
    then have nv: "w \<notin> set ?vis" and m: "move g u w" using N(9) a b by (simp_all add: move_def)
    have uw: "u \<noteq> w" using uv nv by auto
    show ?thesis
    proof (cases "get2 (a_gScore st) u + 1 < get2 (a_gScore st) w")
      case nlt: False
      have "get2 (a_gScore st) w \<noteq> \<infinity>"
        using nlt xu(2) by (cases "get2 (a_gScore st) w") (auto simp: one_enat_def)
      then have "w \<in> set ?vis \<union> set (map fst ?Q)" using N(10)[OF b] by simp
      from skip have "ainv g s e ex st" using \<open>w \<in> set ?vis \<union> set (map fst ?Q)\<close> by simp
      then show ?thesis using False nlt S by (simp add: arelaxed_def)
    next
      case lt: True
      define t where "t = enat (length xu + 1)"
      have tg: "get2 (a_gScore st) u + 1 = t" using xu(2) by (simp add: t_def one_enat_def)
      define Q' where "Q' = (if \<not> hasNode ?Q (fst w) (snd w)
              then enqueue ?Q w (t + enat (?h w)) else ?Q)"
      have eq: "arelaxed g e u st w = \<lparr>a_order = ?vis, a_openSet = Q', a_closedSet = a_closedSet st,
          a_gScore = upd2 (a_gScore st) w t, a_fScore = upd2 (a_fScore st) w (t + enat (?h w)),
          a_previousNodes = upd2 (a_previousNodes st) w (Some u)\<rparr>"
        using False lt tg by (simp add: arelaxed_def Q'_def)
      have sQ: "set (map fst Q') = insert w (set (map fst ?Q))"
        unfolding Q'_def using hasNode_iff[of ?Q w] by (auto simp: set_enqueue)
      have Qcases: "x \<in> set ?Q \<or> (x = (w, t + enat (?h w)) \<and> w \<notin> set (map fst ?Q))"
        if "x \<in> set Q'" for x
        using that unfolding Q'_def using hasNode_iff[of ?Q w] by (auto simp: set_enqueue split: if_splits)
      have Qold: "x \<in> set Q'" if "x \<in> set ?Q" for x
        using that unfolding Q'_def by (auto simp: set_enqueue)
      have P: "predOf (upd2 (a_previousNodes st) w (Some u)) = ?P(w := Some u)"
        using predOf_upd2[OF N(5) i] .
      have G: "ginv g s e ex ?vis (insert w (set (map fst ?Q))) (?P(w := Some u))"
        using ginv_add[OF N(6) uv m nv] .
      have pv: "\<And>x p. ?P x = Some p \<Longrightarrow> p \<in> set ?vis" using ginvD(8)[OF N(6)] by blast
      have keep: "pchain (?P(w := Some u)) x xs" if "pchain ?P x xs" "x \<noteq> w" for x xs
      proof -
        have "set xs \<subseteq> set ?vis" using pchain_subset[OF pv that(1)] by simp
        then have "\<forall>y \<in> insert x (set xs). (?P(w := Some u)) y = ?P y" using nv that(2) by auto
        then show ?thesis using pchain_cong[OF that(1)] by blast
      qed
      have gval: "get2 (upd2 (a_gScore st) w t) x = (if x = w then t else get2 (a_gScore st) x)"
        if "inBounds g x" for x
      proof -
        have "inb ?R ?C x" using that by (simp add: inBounds_inb)
        from get2_upd2[OF N(3) i this] show ?thesis .
      qed
      have disc: "inBounds g x" if "x \<in> set ?vis \<union> set (map fst ?Q)" for x
        using ginvD(4)[OF N(6) that] .
      have A: "ainv g s e ex (arelaxed g e u st w)"
        unfolding eq
      proof (rule ainvI)
        show "rectangular g" "inBounds g e" by (rule N(1), rule N(2))
        show "dims (upd2 (a_gScore st) w t) ?R ?C" by (rule dims_upd2[OF N(3)])
        show "dims (upd2 (a_fScore st) w (t + enat (?h w))) ?R ?C" by (rule dims_upd2[OF N(4)])
        show "dims (upd2 (a_previousNodes st) w (Some u)) ?R ?C" by (rule dims_upd2[OF N(5)])
        show "ginv g s e ex ?vis (set (map fst Q')) (predOf (upd2 (a_previousNodes st) w (Some u)))"
          using G P sQ by simp
        show "distinct (map fst Q')"
          unfolding Q'_def using N(7) distinct_enqueue[OF N(7), of w] hasNode_iff[of ?Q w] by auto
        show "set (map fst Q') \<inter> set ?vis = {}" using sQ N(8) nv by auto
        show "a_closedSet st = set ?vis" by (rule N(9))
        show "(get2 (upd2 (a_gScore st) w t) x \<noteq> \<infinity>) = (x \<in> set ?vis \<union> set (map fst Q'))"
          if x: "inBounds g x" for x
          using gval[OF x] N(10)[OF x] sQ by (auto simp: t_def)
        show "\<exists>xs. pchain (predOf (upd2 (a_previousNodes st) w (Some u))) x xs
                \<and> get2 (upd2 (a_gScore st) w t) x = enat (length xs)"
          if x: "x \<in> set ?vis \<union> set (map fst Q')" for x
        proof (cases "x = w")
          case True
          have "pchain (?P(w := Some u)) u xu" using keep[OF xu(1) uw] .
          then have "pchain (?P(w := Some u)) w (xu @ [u])" by (intro pchain.link) simp_all
          then show ?thesis using True gval[OF b] P by (auto simp: t_def)
        next
          case False
          then have xd: "x \<in> set ?vis \<union> set (map fst ?Q)" using x sQ by auto
          then obtain xs where xs: "pchain ?P x xs" "get2 (a_gScore st) x = enat (length xs)"
            using N(11)[of x] by blast
          show ?thesis using keep[OF xs(1) False] xs(2) gval[OF disc[OF xd]] False P by auto
        qed
      qed
      have B: "ascore g s e (arelaxed g e u st w)"
        unfolding eq
      proof (rule ascoreI)
        show "sorted (map snd Q')" unfolding Q'_def by (simp add: T(1) sorted_enqueue)
        show "get2 (upd2 (a_gScore st) w t) (fst x) + enat (?h (fst x)) \<le> snd x"
          if x: "x \<in> set Q'" for x
        proof (cases "fst x = w")
          case True
          from Qcases[OF x] show ?thesis
          proof
            assume xo: "x \<in> set ?Q"
            have "t \<le> get2 (a_gScore st) w" using lt tg by simp
            then have 1: "t + enat (?h w) \<le> get2 (a_gScore st) w + enat (?h w)"
              by (rule add_right_mono)
            have 2: "get2 (a_gScore st) w + enat (?h w) \<le> snd x" using T(2)[OF xo] True by simp
            have 3: "get2 (upd2 (a_gScore st) w t) (fst x) = t" using gval[OF b] True by simp
            show ?thesis unfolding 3 using order_trans[OF 1 2] True by simp
          next
            assume "x = (w, t + enat (?h w)) \<and> w \<notin> set (map fst ?Q)"
            then show ?thesis using gval[OF b] by simp
          qed
        next
          case False
          then have xo: "x \<in> set ?Q" using Qcases[OF x] by auto
          then have "fst x \<in> set ?vis \<union> set (map fst ?Q)" by simp
          from gval[OF disc[OF this]] show ?thesis using T(2)[OF xo] False by simp
        qed
        show "Q' = [(s, enat (?h s))]" if "?vis = []" using that l by simp
        show "get2 (upd2 (a_gScore st) w t) c + enat (?h c) = enat (?h s)"
          if "noWalls g" "c \<in> set ?vis" for c
        proof -
          have "c \<noteq> w" using that(2) nv by auto
          moreover have "inBounds g c" using disc that(2) by simp
          ultimately show ?thesis using gval[of c] T(4)[OF that] by simp
        qed
        show "snd x = enat (?h s)"
          if nw: "noWalls g" and x: "x \<in> set Q'"
            and near: "\<forall>c \<in> set ?vis. ?h (fst x) < ?h c" for x
          using Qcases[OF x]
        proof
          assume "x \<in> set ?Q"
          then show ?thesis using T(5)[OF nw _ near] by simp
        next
          assume xn: "x = (w, t + enat (?h w)) \<and> w \<notin> set (map fst ?Q)"
          then have "?h w < ?h u" using near uv by auto
          then have hu: "?h w + 1 = ?h u" using manhattan_move[OF a, of e] by auto
          have "enat (length xu) + enat (?h u) = enat (?h s)" using T(4)[OF nw uv] xu(2) by simp
          then have "length xu + ?h u = ?h s" by simp
          then have "t + enat (?h w) = enat (?h s)" using hu by (simp add: t_def)
          then show ?thesis using xn by simp
        qed
      qed
      show ?thesis using A B by simp
    qed
  qed
qed

lemma arelax_all:
  assumes l: "a_order st \<noteq> []" "last (a_order st) = u"
    and n: "\<forall>w \<in> set ws. adjacent u w \<and> inBounds g w"
    and I: "ainv g s e ({u} \<times> set ws) st" and S: "ascore g s e st"
  shows "\<exists>st'. forEach (astar_relax g e u) st ws = Some st' \<and> ainv g s e {} st' \<and> ascore g s e st'
            \<and> a_order st' = a_order st"
  using assms
proof (induction ws arbitrary: st)
  case Nil
  then show ?case by auto
next
  case (Cons w ws)
  have e: "{u} \<times> set (w # ws) = insert (u, w) ({u} \<times> set ws)" by auto
  have I': "ainv g s e (insert (u, w) ({u} \<times> set ws)) st" using Cons.prems(4) e by simp
  note N = ainvD[OF I']
  have uo: "u \<in> set (a_order st)" using Cons.prems(1,2) by auto
  have ub: "inBounds g u" using ginvD(4)[OF N(6)] uo by simp
  have a: "adjacent u w" and b: "inBounds g w" using Cons.prems(3) by auto
  have 1: "astar_relax g e u st w = Some (arelaxed g e u st w)"
    using arelax_eq[OF N(1) b ub N(3,4,5)] .
  have 2: "ainv g s e ({u} \<times> set ws) (arelaxed g e u st w)" "ascore g s e (arelaxed g e u st w)"
    using arelaxed_inv[OF I' Cons.prems(5) Cons.prems(1,2) a b] by simp_all
  have 4: "a_order (arelaxed g e u st w) \<noteq> []" "last (a_order (arelaxed g e u st w)) = u"
    using Cons.prems(1,2) by (simp_all add: arelaxed_order)
  have 5: "\<forall>w \<in> set ws. adjacent u w \<and> inBounds g w" using Cons.prems(3) by simp
  from Cons.IH[OF 4 5 2] show ?case using 1 by (simp add: arelaxed_order)
qed

lemma nearest_closed:
  assumes "vis \<noteq> []"
  shows "\<exists>c \<in> set vis. \<forall>c' \<in> set vis. manhattanDistance c e \<le> manhattanDistance c' e"
proof -
  let ?H = "(\<lambda>c. manhattanDistance c e) ` set vis"
  have f: "finite ?H" "?H \<noteq> {}" using assms by auto
  have "Min ?H \<in> ?H" using Min_in[OF f] .
  then obtain c where c: "c \<in> set vis" "manhattanDistance c e = Min ?H" by auto
  have "\<forall>c' \<in> set vis. Min ?H \<le> manhattanDistance c' e" using Min_le[OF f(1)] by auto
  then have "\<forall>c' \<in> set vis. manhattanDistance c e \<le> manhattanDistance c' e"
    by (simp only: c(2))
  then show ?thesis using c(1) by blast
qed

text \<open>
  Without walls, the frontier always holds a cell that is one step nearer to e than
  the nearest visited cell.
\<close>

lemma nearer_in_frontier:
  assumes G: "ginv g s e {} vis F P" and r: "rectangular g" and nw: "noWalls g"
    and eb: "inBounds g e" and ne: "vis \<noteq> []"
  shows "\<exists>w \<in> F. \<forall>c \<in> set vis. manhattanDistance w e < manhattanDistance c e"
proof -
  obtain c where c: "c \<in> set vis" "\<forall>c' \<in> set vis. manhattanDistance c e \<le> manhattanDistance c' e"
    using nearest_closed[OF ne] by blast
  have cb: "inBounds g c" using ginvD(4)[OF G] c(1) by simp
  have "c \<noteq> e" using ginvD(2)[OF G] c(1) by auto
  then obtain w where w: "adjacent c w" "inBounds g w" "manhattanDistance w e + 1 = manhattanDistance c e"
    using closer_neighbor[OF cb eb] by blast
  have m: "move g c w" using w noWalls_wallAt[OF r nw w(2)] by (simp add: move_def)
  have lt: "\<forall>c' \<in> set vis. manhattanDistance w e < manhattanDistance c' e"
    using c(2) w(3) by fastforce
  then have "w \<notin> set vis" by auto
  then have "w \<in> F" using ginvD(11)[OF G c(1) m] by simp
  then show ?thesis using lt by blast
qed

lemma ainv_front_H:
  assumes I: "ainv g s e {} st" and S: "ascore g s e st" and nw: "noWalls g"
    and q: "a_openSet st = (u, p) # rest"
  shows "\<exists>xs. pchain (predOf (a_previousNodes st)) u xs \<and> get2 (a_gScore st) u = enat (length xs)
           \<and> length xs + manhattanDistance u e = manhattanDistance s e"
proof -
  note N = ainvD[OF I] and T = ascoreD[OF S]
  let ?H = "manhattanDistance s e"
  have uin: "u \<in> set (a_order st) \<union> set (map fst (a_openSet st))" using q by simp
  obtain xs where xs: "pchain (predOf (a_previousNodes st)) u xs" "get2 (a_gScore st) u = enat (length xs)"
    using N(11)[OF uin] by blast
  obtain ws where ws: "route g s ws u" "length ws = length xs"
    using ginv_any_route[OF N(6) uin xs(1)] by blast
  have lo: "?H \<le> length xs + manhattanDistance u e"
    using route_manhattan[OF ws(1)] manhattan_triangle[of s e u] ws(2) by simp
  have "\<exists>x \<in> set (a_openSet st). snd x = enat ?H"
  proof (cases "a_order st = []")
    case True
    then show ?thesis using T(3) by simp
  next
    case False
    obtain w where w: "w \<in> set (map fst (a_openSet st))"
        "\<forall>c \<in> set (a_order st). manhattanDistance w e < manhattanDistance c e"
      using nearer_in_frontier[OF N(6) N(1) nw N(2) False] by blast
    then obtain x where x: "x \<in> set (a_openSet st)" "fst x = w" by auto
    then have "snd x = enat ?H" using T(5)[OF nw x(1)] w(2) by simp
    then show ?thesis using x(1) by blast
  qed
  then obtain x where x: "x \<in> set (a_openSet st)" "snd x = enat ?H" by blast
  have 1: "p \<le> enat ?H" using T(1) x q by auto
  have 2: "enat (length xs + manhattanDistance u e) \<le> p"
    using T(2)[of "(u, p)"] q xs(2) by simp
  have "enat (length xs + manhattanDistance u e) \<le> enat ?H" using order_trans[OF 2 1] .
  then have "length xs + manhattanDistance u e \<le> ?H" by simp
  then show ?thesis using lo xs by auto
qed

lemma ainv_pop:
  assumes I: "ainv g s e {} st" and S: "ascore g s e st"
    and q: "a_openSet st = (u, p) # rest" and ne: "u \<noteq> e"
  shows "ainv g s e ({u} \<times> set (getNeighbors (fst u) (snd u) g))
           \<lparr>a_order = a_order st @ [u], a_openSet = rest,
            a_closedSet = insert u (a_closedSet st), a_gScore = a_gScore st,
            a_fScore = a_fScore st, a_previousNodes = a_previousNodes st\<rparr>
       \<and> ascore g s e
           \<lparr>a_order = a_order st @ [u], a_openSet = rest,
            a_closedSet = insert u (a_closedSet st), a_gScore = a_gScore st,
            a_fScore = a_fScore st, a_previousNodes = a_previousNodes st\<rparr>"
proof
  note N = ainvD[OF I] and T = ascoreD[OF S]
  let ?ex = "{u} \<times> set (getNeighbors (fst u) (snd u) g)"
  have uin: "u \<in> set (map fst (a_openSet st))" using q by simp
  have nv: "u \<notin> set (a_order st)" using N(8) uin by auto
  have ur: "u \<notin> set (map fst rest)" and dr: "distinct (map fst rest)" using N(7) q by simp_all
  show "ainv g s e ?ex \<lparr>a_order = a_order st @ [u], a_openSet = rest,
            a_closedSet = insert u (a_closedSet st), a_gScore = a_gScore st,
            a_fScore = a_fScore st, a_previousNodes = a_previousNodes st\<rparr>"
  proof (rule ainvI)
    show "ginv g s e ?ex (a_order st @ [u]) (set (map fst rest)) (predOf (a_previousNodes st))"
      by (rule ginv_pop[OF N(6) uin nv ne]) (use q move_neighbor in auto)
    show "set (map fst rest) \<inter> set (a_order st @ [u]) = {}" using N(8) q ur by auto
    show "insert u (a_closedSet st) = set (a_order st @ [u])" using N(9) by simp
    show "(get2 (a_gScore st) w \<noteq> \<infinity>) = (w \<in> set (a_order st @ [u]) \<union> set (map fst rest))"
      if "inBounds g w" for w using N(10)[OF that] q by auto
    show "\<exists>xs. pchain (predOf (a_previousNodes st)) w xs \<and> get2 (a_gScore st) w = enat (length xs)"
      if "w \<in> set (a_order st @ [u]) \<union> set (map fst rest)" for w
      using N(11)[of w] that q by auto
  qed (use N dr in auto)
  show "ascore g s e \<lparr>a_order = a_order st @ [u], a_openSet = rest,
            a_closedSet = insert u (a_closedSet st), a_gScore = a_gScore st,
            a_fScore = a_fScore st, a_previousNodes = a_previousNodes st\<rparr>"
  proof (rule ascoreI)
    show "sorted (map snd rest)" using T(1) q by simp
    show "get2 (a_gScore st) (fst x) + enat (manhattanDistance (fst x) e) \<le> snd x"
      if "x \<in> set rest" for x using T(2)[of x] that q by simp
    show "rest = [(s, enat (manhattanDistance s e))]" if "a_order st @ [u] = []" using that by simp
    show "get2 (a_gScore st) c + enat (manhattanDistance c e) = enat (manhattanDistance s e)"
      if nw: "noWalls g" and c: "c \<in> set (a_order st @ [u])" for c
    proof (cases "c = u")
      case True
      obtain xs :: "coord list" where "get2 (a_gScore st) u = enat (length xs)"
          "length xs + manhattanDistance u e = manhattanDistance s e"
        using ainv_front_H[OF I S nw q] by blast
      then show ?thesis using True by simp
    next
      case False
      then show ?thesis using T(4)[OF nw, of c] c by simp
    qed
    show "snd x = enat (manhattanDistance s e)"
      if "noWalls g" "x \<in> set rest"
        "\<forall>c \<in> set (a_order st @ [u]). manhattanDistance (fst x) e < manhattanDistance c e" for x
      using T(5)[OF that(1), of x] that(2,3) q by simp
  qed
qed

lemma ainv_order_bound:
  assumes "ainv g s e ex st"
  shows "length (a_order st) \<le> length g * length (hd g)"
proof -
  note G = ginvD[OF ainvD(6)[OF assms]]
  show ?thesis by (rule inb_count[OF G(1)]) (use G(4) in \<open>auto simp: inBounds_inb\<close>)
qed

lemma astar_loop_total:
  "ainv g s e {} st \<Longrightarrow> ascore g s e st \<Longrightarrow>
     \<exists>st' ys. astar_loop g e st = Some st'
        \<and> getNodesInShortestPathOrder (a_previousNodes st') e = Some ys
        \<and> gfinal g s e (a_order st') ys
        \<and> (noWalls g \<longrightarrow> e \<in> set (a_order st') \<longrightarrow> length ys = manhattanDistance s e)"
proof (induction "length g * length (hd g) - length (a_order st)" arbitrary: st rule: less_induct)
  case less
  note N = ainvD[OF less.prems(1)]
  let ?P = "predOf (a_previousNodes st)"
  show ?case
  proof (cases "a_openSet st")
    case Nil
    have 1: "astar_loop g e st = Some st" using Nil by (subst astar_loop.simps) (simp add: isEmpty_def)
    have G: "ginv g s e {} (a_order st) {} ?P" using N(6) Nil by simp
    from ginv_exhaust[OF G] have c: "pchain ?P e []" "gfinal g s e (a_order st) []" by auto
    have "\<forall>x \<in> insert e (set []). inb (length g) (length (hd g)) x"
      using N(2) by (simp add: inBounds_inb)
    from getNodes_chain[OF N(5) c(1) this]
    have 2: "getNodesInShortestPathOrder (a_previousNodes st) e = Some []" .
    have "e \<notin> set (a_order st)" using ginvD(2)[OF N(6)] .
    then show ?thesis using 1 2 c(2) by auto
  next
    case (Cons item rest)
    obtain u p where item: "item = (u, p)" by (cases item)
    have q: "a_openSet st = (u, p) # rest" using Cons item by simp
    have uin: "u \<in> set (map fst (a_openSet st))" using q by simp
    show ?thesis
    proof (cases "u = e")
      case True
      define st1 where "st1 = st\<lparr>a_openSet := rest, a_order := a_order st @ [u]\<rparr>"
      have 1: "astar_loop g e st = Some st1"
        using q by (subst astar_loop.simps) (simp add: isEmpty_def Let_def st1_def coord_eq True[symmetric])
      have ein: "e \<in> set (map fst (a_openSet st))" using uin True by simp
      obtain ys where ys: "pchain ?P e ys" "gfinal g s e (a_order st @ [e]) ys"
        using ginv_break[OF N(6) ein] by blast
      have "\<forall>x \<in> insert e (set ys). inb (length g) (length (hd g)) x"
        using ys(2) N(2) unfolding gfinal_def by (auto simp: inBounds_inb)
      from getNodes_chain[OF N(5) ys(1) this]
      have 2: "getNodesInShortestPathOrder (a_previousNodes st) e = Some ys" .
      have 3: "length ys = manhattanDistance s e" if nw: "noWalls g"
      proof -
        obtain xs where xs: "pchain ?P u xs" "length xs + manhattanDistance u e = manhattanDistance s e"
          using ainv_front_H[OF less.prems nw q] by blast
        have "xs = ys" using pchain_fun[OF xs(1)] ys(1) True by simp
        then show ?thesis using xs(2) True by (simp add: manhattanDistance_def)
      qed
      show ?thesis using 1 2 3 ys(2) True by (auto simp: st1_def)
    next
      case ne: False
      define st1 where "st1 = \<lparr>a_order = a_order st @ [u], a_openSet = rest,
            a_closedSet = insert u (a_closedSet st), a_gScore = a_gScore st,
            a_fScore = a_fScore st, a_previousNodes = a_previousNodes st\<rparr>"
      have st1: "st\<lparr>a_openSet := rest, a_closedSet := insert u (a_closedSet st),
                     a_order := a_order st @ [u]\<rparr> = st1"
        by (simp add: st1_def)
      have I1: "ainv g s e ({u} \<times> set (getNeighbors (fst u) (snd u) g)) st1" "ascore g s e st1"
        unfolding st1_def using ainv_pop[OF less.prems q ne] by simp_all
      have n: "\<forall>w \<in> set (getNeighbors (fst u) (snd u) g). adjacent u w \<and> inBounds g w"
        using set_getNeighbors[of _ "fst u" "snd u" g] by simp
      have l: "a_order st1 \<noteq> []" "last (a_order st1) = u" by (simp_all add: st1_def)
      from arelax_all[OF l n I1] obtain st2 where
        st2: "forEach (astar_relax g e u) st1 (getNeighbors (fst u) (snd u) g) = Some st2"
          "ainv g s e {} st2" "ascore g s e st2" "a_order st2 = a_order st1"
        by blast
      have "length (a_order st2) \<le> length g * length (hd g)" by (rule ainv_order_bound[OF st2(2)])
      then have m: "length g * length (hd g) - length (a_order st2) < length g * length (hd g) - length (a_order st)"
        using st2(4) by (simp add: st1_def)
      have "astar_loop g e st = astar_loop g e st2"
        using q ne st2(1)
        by (subst astar_loop.simps) (simp add: isEmpty_def Let_def st1 coord_eq)
      then show ?thesis using less.hyps[OF m st2(2,3)] by simp
    qed
  qed
qed

lemma astar_init:
  assumes r: "rectangular g" and s: "inBounds g s" and e: "inBounds g e"
  shows "ainv g s e {} \<lparr>a_order = [], a_openSet = [(s, enat (manhattanDistance s e))],
           a_closedSet = {}, a_gScore = upd2 (newArray2 g \<infinity>) s 0,
           a_fScore = upd2 (newArray2 g \<infinity>) s (enat (manhattanDistance s e)),
           a_previousNodes = newArray2 g None\<rparr>
       \<and> ascore g s e \<lparr>a_order = [], a_openSet = [(s, enat (manhattanDistance s e))],
           a_closedSet = {}, a_gScore = upd2 (newArray2 g \<infinity>) s 0,
           a_fScore = upd2 (newArray2 g \<infinity>) s (enat (manhattanDistance s e)),
           a_previousNodes = newArray2 g None\<rparr>"
proof
  let ?R = "length g" and ?C = "length (hd g)"
  have i: "inb ?R ?C s" using s by (simp add: inBounds_inb)
  have gs: "get2 (upd2 (newArray2 g (\<infinity>::enat)) s 0) w = (if w = s then 0 else \<infinity>)"
    if w: "inBounds g w" for w
  proof -
    have j: "inb ?R ?C w" using w by (simp add: inBounds_inb)
    show ?thesis
      using get2_upd2[OF dims_newArray2 i j, of "\<infinity>::enat" 0] get2_newArray2[OF j, of "\<infinity>::enat"]
      by simp
  qed
  show "ainv g s e {} \<lparr>a_order = [], a_openSet = [(s, enat (manhattanDistance s e))],
           a_closedSet = {}, a_gScore = upd2 (newArray2 g \<infinity>) s 0,
           a_fScore = upd2 (newArray2 g \<infinity>) s (enat (manhattanDistance s e)),
           a_previousNodes = newArray2 g None\<rparr>"
  proof (rule ainvI)
    show "rectangular g" "inBounds g e" by (rule r, rule e)
    show "dims (upd2 (newArray2 g (\<infinity>::enat)) s 0) ?R ?C" by (rule dims_upd2[OF dims_newArray2])
    show "dims (upd2 (newArray2 g (\<infinity>::enat)) s (enat (manhattanDistance s e))) ?R ?C"
      by (rule dims_upd2[OF dims_newArray2])
    show "dims (newArray2 g (None :: coord option)) ?R ?C" by (rule dims_newArray2)
    show "ginv g s e {} [] (set (map fst [(s, enat (manhattanDistance s e))])) (predOf (newArray2 g None))"
      using ginv_init[OF s, of e] by (simp add: predOf_new)
    show "distinct (map fst [(s, enat (manhattanDistance s e))])" by simp
    show "set (map fst [(s, enat (manhattanDistance s e))]) \<inter> set [] = {}" by simp
    show "({} :: coord set) = set []" by simp
    show "(get2 (upd2 (newArray2 g \<infinity>) s 0) w \<noteq> (\<infinity>::enat))
            = (w \<in> set [] \<union> set (map fst [(s, enat (manhattanDistance s e))]))"
      if "inBounds g w" for w using gs[OF that] by (auto simp: zero_enat_def)
    show "\<exists>xs. pchain (predOf (newArray2 g None)) w xs
            \<and> get2 (upd2 (newArray2 g \<infinity>) s 0) w = enat (length xs)"
      if "w \<in> set [] \<union> set (map fst [(s, enat (manhattanDistance s e))])" for w
    proof -
      have "w = s" using that by simp
      moreover have "pchain (predOf (newArray2 g None)) s []"
        by (rule pchain.root) (simp add: predOf_new)
      ultimately show ?thesis using gs[OF s] by (auto simp: zero_enat_def)
    qed
  qed
  show "ascore g s e \<lparr>a_order = [], a_openSet = [(s, enat (manhattanDistance s e))],
           a_closedSet = {}, a_gScore = upd2 (newArray2 g \<infinity>) s 0,
           a_fScore = upd2 (newArray2 g \<infinity>) s (enat (manhattanDistance s e)),
           a_previousNodes = newArray2 g None\<rparr>"
    by (rule ascoreI) (use gs[OF s] in \<open>auto simp: zero_enat_def\<close>)
qed

theorem astar_total:
  assumes r: "rectangular g" and s: "inBounds g s" and e: "inBounds g e"
  shows "\<exists>res. astar (Some g) (Some s) (Some e) = Some res
           \<and> gfinal g s e (visitedNodesInOrder res) (shortestPath res)
           \<and> (noWalls g \<longrightarrow> e \<in> set (visitedNodesInOrder res)
                 \<longrightarrow> length (shortestPath res) = manhattanDistance s e)"
proof -
  let ?st0 = "\<lparr>a_order = [], a_openSet = [(s, enat (manhattanDistance s e))],
           a_closedSet = {}, a_gScore = upd2 (newArray2 g \<infinity>) s 0,
           a_fScore = upd2 (newArray2 g \<infinity>) s (enat (manhattanDistance s e)),
           a_previousNodes = newArray2 g None\<rparr>"
  have I: "ainv g s e {} ?st0" "ascore g s e ?st0" using astar_init[OF r s e] by simp_all
  obtain st' ys where l: "astar_loop g e ?st0 = Some st'"
      "getNodesInShortestPathOrder (a_previousNodes st') e = Some ys"
      "gfinal g s e (a_order st') ys"
      "noWalls g \<longrightarrow> e \<in> set (a_order st') \<longrightarrow> length ys = manhattanDistance s e"
    using astar_loop_total[OF I] by blast
  have "astar (Some g) (Some s) (Some e) = Some \<lparr>visitedNodesInOrder = a_order st', shortestPath = ys\<rparr>"
    using rectangular_valid[OF r] l(1,2) write2_new[OF s, of "\<infinity>::enat"]
      read2_upd2_new[OF s s, of "\<infinity>::enat" "enat (manhattanDistance s e)"]
    by (simp add: astar_def)
  then show ?thesis using l(3,4) by simp
qed

section \<open>Greedy best-first search\<close>

lemma grinvD:
  assumes "grinv g s e ex st"
  shows "rectangular g" and "inBounds g e"
    and "dims (g_previousNodes st) (length g) (length (hd g))"
    and "ginv g s e ex (g_order st) (set (map fst (g_openSet st))) (predOf (g_previousNodes st))"
    and "distinct (map fst (g_openSet st))"
    and "set (map fst (g_openSet st)) \<inter> set (g_order st) = {}"
    and "g_closedSet st = set (g_order st)"
  using assms unfolding grinv_def by blast+

lemma grscoreD:
  assumes "grscore g s e st"
  shows "sorted (map snd (g_openSet st))"
    and "g_order st = [] \<Longrightarrow> g_openSet st = [(s, 0)]"
    and "\<And>x. g_order st \<noteq> [] \<Longrightarrow> x \<in> set (g_openSet st) \<Longrightarrow> snd x = manhattanDistance (fst x) e"
    and "\<And>c. noWalls g \<Longrightarrow> c \<in> set (butlast (g_order st)) \<Longrightarrow>
            manhattanDistance (last (g_order st)) e < manhattanDistance c e"
    and "noWalls g \<Longrightarrow> g_order st \<noteq> [] \<Longrightarrow>
            \<exists>xs. pchain (predOf (g_previousNodes st)) (last (g_order st)) xs
               \<and> length xs + manhattanDistance (last (g_order st)) e = manhattanDistance s e"
proof -
  show "sorted (map snd (g_openSet st))" using assms unfolding grscore_def by blast
  show "g_order st = [] \<Longrightarrow> g_openSet st = [(s, 0)]" using assms unfolding grscore_def by blast
  show "\<And>x. g_order st \<noteq> [] \<Longrightarrow> x \<in> set (g_openSet st) \<Longrightarrow> snd x = manhattanDistance (fst x) e"
    using assms unfolding grscore_def by blast
  show "\<And>c. noWalls g \<Longrightarrow> c \<in> set (butlast (g_order st)) \<Longrightarrow>
            manhattanDistance (last (g_order st)) e < manhattanDistance c e"
  proof -
    fix c assume a: "noWalls g" "c \<in> set (butlast (g_order st))"
    then have "g_order st \<noteq> []" by auto
    then show "manhattanDistance (last (g_order st)) e < manhattanDistance c e"
      using assms a unfolding grscore_def by blast
  qed
  show "noWalls g \<Longrightarrow> g_order st \<noteq> [] \<Longrightarrow>
            \<exists>xs. pchain (predOf (g_previousNodes st)) (last (g_order st)) xs
               \<and> length xs + manhattanDistance (last (g_order st)) e = manhattanDistance s e"
    using assms unfolding grscore_def by blast
qed

lemma grinvI:
  assumes "rectangular g" and "inBounds g e"
    and "dims prev (length g) (length (hd g))"
    and "ginv g s e ex vis (set (map fst Q)) (predOf prev)"
    and "distinct (map fst Q)"
    and "set (map fst Q) \<inter> set vis = {}"
    and "cl = set vis"
  shows "grinv g s e ex \<lparr>g_order = vis, g_openSet = Q, g_closedSet = cl, g_previousNodes = prev\<rparr>"
  unfolding grinv_def using assms by simp

lemma grscoreI:
  assumes "sorted (map snd Q)"
    and "vis = [] \<Longrightarrow> Q = [(s, 0)]"
    and "\<And>x. vis \<noteq> [] \<Longrightarrow> x \<in> set Q \<Longrightarrow> snd x = manhattanDistance (fst x) e"
    and "\<And>c. noWalls g \<Longrightarrow> c \<in> set (butlast vis) \<Longrightarrow>
            manhattanDistance (last vis) e < manhattanDistance c e"
    and "noWalls g \<Longrightarrow> vis \<noteq> [] \<Longrightarrow>
            \<exists>xs. pchain (predOf prev) (last vis) xs
               \<and> length xs + manhattanDistance (last vis) e = manhattanDistance s e"
  shows "grscore g s e \<lparr>g_order = vis, g_openSet = Q, g_closedSet = cl, g_previousNodes = prev\<rparr>"
  unfolding grscore_def using assms by simp

lemma grelax_eq:
  assumes "rectangular g" "inBounds g w"
    and "dims (g_previousNodes st) (length g) (length (hd g))"
  shows "greedy_relax g e u st w = Some (grelaxed g e u st w)"
proof -
  have i: "inb (length g) (length (hd g)) w" using assms(2) by (simp add: inBounds_inb)
  have 2: "read2 g w = Some (get2 g w)" using read2_dims[OF dims_rectangular[OF assms(1)] i] .
  have 7: "\<And>v. write2 (g_previousNodes st) w v = Some (upd2 (g_previousNodes st) w v)"
    using write2_dims[OF assms(3) i] .
  show ?thesis
    unfolding greedy_relax_def grelaxed_def by (simp add: 2 7 wallAt_get2 Let_def)
qed

lemma grelaxed_order: "g_order (grelaxed g e u st w) = g_order st"
  by (simp add: grelaxed_def)

lemma grelaxed_inv:
  assumes I: "grinv g s e (insert (u, w) ex) st" and S: "grscore g s e st"
    and l: "g_order st \<noteq> []" "last (g_order st) = u"
    and a: "adjacent u w" and b: "inBounds g w"
  shows "grinv g s e ex (grelaxed g e u st w) \<and> grscore g s e (grelaxed g e u st w)"
proof -
  note N = grinvD[OF I] and T = grscoreD[OF S]
  let ?vis = "g_order st" and ?Q = "g_openSet st" and ?P = "predOf (g_previousNodes st)"
  let ?R = "length g" and ?C = "length (hd g)"
  let ?h = "\<lambda>x. manhattanDistance x e"
  have uv: "u \<in> set ?vis" using l by auto
  have st: "st = \<lparr>g_order = ?vis, g_openSet = ?Q, g_closedSet = g_closedSet st,
      g_previousNodes = g_previousNodes st\<rparr>"
    by simp
  have i: "inb ?R ?C w" using b by (simp add: inBounds_inb)
  show ?thesis
  proof (cases "w \<in> g_closedSet st \<or> wallAt g w")
    case True
    then have n: "\<not> move g u w \<or> w \<in> set ?vis \<union> set (map fst ?Q)"
      using N(7) by (auto simp: move_def)
    have G: "ginv g s e ex ?vis (set (map fst ?Q)) ?P" using ginv_skip[OF N(4) n] .
    have "grinv g s e ex st" by (subst st, rule grinvI) (use N G in auto)
    then show ?thesis using True S by (auto simp: grelaxed_def)
  next
    case False
    then have nv: "w \<notin> set ?vis" and m: "move g u w" using N(7) a b by (simp_all add: move_def)
    define Q' where "Q' = (if \<not> hasNode ?Q (fst w) (snd w)
              then enqueue ?Q w (?h w) else ?Q)"
    have eq: "grelaxed g e u st w = \<lparr>g_order = ?vis, g_openSet = Q', g_closedSet = g_closedSet st,
          g_previousNodes = upd2 (g_previousNodes st) w (Some u)\<rparr>"
      using False by (simp add: grelaxed_def Q'_def)
    have sQ: "set (map fst Q') = insert w (set (map fst ?Q))"
      unfolding Q'_def using hasNode_iff[of ?Q w] by (auto simp: set_enqueue)
    have Qcases: "x \<in> set ?Q \<or> x = (w, ?h w)" if "x \<in> set Q'" for x
      using that unfolding Q'_def by (auto simp: set_enqueue split: if_splits)
    have P: "predOf (upd2 (g_previousNodes st) w (Some u)) = ?P(w := Some u)"
      using predOf_upd2[OF N(3) i] .
    have G: "ginv g s e ex ?vis (insert w (set (map fst ?Q))) (?P(w := Some u))"
      using ginv_add[OF N(4) uv m nv] .
    have pv: "\<And>x p. ?P x = Some p \<Longrightarrow> p \<in> set ?vis" using ginvD(8)[OF N(4)] by blast
    have keep: "pchain (?P(w := Some u)) x xs" if "pchain ?P x xs" "x \<noteq> w" for x xs
    proof -
      have "set xs \<subseteq> set ?vis" using pchain_subset[OF pv that(1)] by simp
      then have "\<forall>y \<in> insert x (set xs). (?P(w := Some u)) y = ?P y" using nv that(2) by auto
      then show ?thesis using pchain_cong[OF that(1)] by blast
    qed
    have A: "grinv g s e ex (grelaxed g e u st w)"
      unfolding eq
    proof (rule grinvI)
      show "rectangular g" "inBounds g e" by (rule N(1), rule N(2))
      show "dims (upd2 (g_previousNodes st) w (Some u)) ?R ?C" by (rule dims_upd2[OF N(3)])
      show "ginv g s e ex ?vis (set (map fst Q')) (predOf (upd2 (g_previousNodes st) w (Some u)))"
        using G P sQ by simp
      show "distinct (map fst Q')"
        unfolding Q'_def using N(5) distinct_enqueue[OF N(5), of w] hasNode_iff[of ?Q w] by auto
      show "set (map fst Q') \<inter> set ?vis = {}" using sQ N(6) nv by auto
      show "g_closedSet st = set ?vis" by (rule N(7))
    qed
    have B: "grscore g s e (grelaxed g e u st w)"
      unfolding eq
    proof (rule grscoreI)
      show "sorted (map snd Q')" unfolding Q'_def by (simp add: T(1) sorted_enqueue)
      show "Q' = [(s, 0)]" if "?vis = []" using that l by simp
      show "snd x = ?h (fst x)" if "?vis \<noteq> []" "x \<in> set Q'" for x
        using Qcases[OF that(2)] T(3)[OF that(1), of x] by auto
      show "?h (last ?vis) < ?h c" if "noWalls g" "c \<in> set (butlast ?vis)" for c
        using T(4)[OF that] .
      show "\<exists>xs. pchain (predOf (upd2 (g_previousNodes st) w (Some u))) (last ?vis) xs
               \<and> length xs + ?h (last ?vis) = ?h s" if nw: "noWalls g" and ne: "?vis \<noteq> []"
      proof -
        obtain xs where xs: "pchain ?P (last ?vis) xs" "length xs + ?h (last ?vis) = ?h s"
          using T(5)[OF nw ne] by blast
        have "last ?vis \<noteq> w" using l uv nv by auto
        from keep[OF xs(1) this] show ?thesis using xs(2) P by auto
      qed
    qed
    show ?thesis using A B by simp
  qed
qed

lemma grelax_all:
  assumes l: "g_order st \<noteq> []" "last (g_order st) = u"
    and n: "\<forall>w \<in> set ws. adjacent u w \<and> inBounds g w"
    and I: "grinv g s e ({u} \<times> set ws) st" and S: "grscore g s e st"
  shows "\<exists>st'. forEach (greedy_relax g e u) st ws = Some st' \<and> grinv g s e {} st' \<and> grscore g s e st'
            \<and> g_order st' = g_order st"
  using assms
proof (induction ws arbitrary: st)
  case Nil
  then show ?case by auto
next
  case (Cons w ws)
  have e: "{u} \<times> set (w # ws) = insert (u, w) ({u} \<times> set ws)" by auto
  have I': "grinv g s e (insert (u, w) ({u} \<times> set ws)) st" using Cons.prems(4) e by simp
  note N = grinvD[OF I']
  have a: "adjacent u w" and b: "inBounds g w" using Cons.prems(3) by auto
  have 1: "greedy_relax g e u st w = Some (grelaxed g e u st w)"
    using grelax_eq[OF N(1) b N(3)] .
  have 2: "grinv g s e ({u} \<times> set ws) (grelaxed g e u st w)" "grscore g s e (grelaxed g e u st w)"
    using grelaxed_inv[OF I' Cons.prems(5) Cons.prems(1,2) a b] by simp_all
  have 4: "g_order (grelaxed g e u st w) \<noteq> []" "last (g_order (grelaxed g e u st w)) = u"
    using Cons.prems(1,2) by (simp_all add: grelaxed_order)
  have 5: "\<forall>w \<in> set ws. adjacent u w \<and> inBounds g w" using Cons.prems(3) by simp
  from Cons.IH[OF 4 5 2] show ?case using 1 by (simp add: grelaxed_order)
qed

text \<open>
  Without walls, the cell at the head of the open set is nearer to e than every visited
  cell, and its predecessors lead back to s in as many steps as the heuristic of s
  allows.
\<close>

lemma grinv_front_H:
  assumes I: "grinv g s e {} st" and S: "grscore g s e st" and nw: "noWalls g"
    and q: "g_openSet st = (u, p) # rest"
  shows "(\<forall>c \<in> set (g_order st). manhattanDistance u e < manhattanDistance c e)
       \<and> (\<exists>xs. pchain (predOf (g_previousNodes st)) u xs
              \<and> length xs + manhattanDistance u e = manhattanDistance s e)"
proof (cases "g_order st = []")
  case True
  note N = grinvD[OF I] and T = grscoreD[OF S]
  have "u = s" using T(2)[OF True] q by simp
  moreover have "pchain (predOf (g_previousNodes st)) s []"
    by (rule pchain.root) (rule ginvD(5)[OF N(4)])
  ultimately show ?thesis using True by auto
next
  case False
  note N = grinvD[OF I] and T = grscoreD[OF S]
  let ?vis = "g_order st" and ?P = "predOf (g_previousNodes st)"
  let ?h = "\<lambda>x. manhattanDistance x e"
  define v where "v = last ?vis"
  have vin: "v \<in> set ?vis" using False by (simp add: v_def)
  have split: "c = v \<or> c \<in> set (butlast ?vis)" if "c \<in> set ?vis" for c
  proof -
    have "butlast ?vis @ [v] = ?vis" using False by (simp add: v_def)
    then have "set (butlast ?vis @ [v]) = set ?vis" by (rule arg_cong)
    then show ?thesis using that by auto
  qed
  obtain w where w: "w \<in> set (map fst (g_openSet st))" "\<forall>c \<in> set ?vis. ?h w < ?h c"
    using nearer_in_frontier[OF N(4) N(1) nw N(2) False] by blast
  then obtain x where x: "x \<in> set (g_openSet st)" "fst x = w" by auto
  have sx: "snd x = ?h w" using T(3)[OF False x(1)] x(2) by simp
  have pu: "p = ?h u" using T(3)[OF False, of "(u, p)"] q by simp
  have "p \<le> snd x" using T(1) x(1) q by auto
  then have le: "?h u \<le> ?h w" using sx pu by simp
  have near: "\<forall>c \<in> set ?vis. ?h u < ?h c" using w(2) le by fastforce
  have uin: "u \<in> set (map fst (g_openSet st))" using q by simp
  have nv: "u \<notin> set ?vis" using N(6) uin by auto
  have "u \<noteq> s" using ginv_start_vis[OF N(4) False] nv by auto
  then have "?P u \<noteq> None" using ginvD(9)[OF N(4), of u] uin by simp
  then obtain c where c: "?P u = Some c" by auto
  have cm: "c \<in> set ?vis" "move g c u" using ginvD(8)[OF N(4) c] by simp_all
  have hc: "?h c \<le> ?h u + 1" using manhattan_move_le[of c u e] cm(2) by (simp add: move_def)
  have "c = v"
  proof (rule ccontr)
    assume "c \<noteq> v"
    then have "c \<in> set (butlast ?vis)" using split[OF cm(1)] by simp
    then have "?h v < ?h c" using T(4)[OF nw] by (simp add: v_def)
    moreover have "?h u < ?h v" using near vin by simp
    ultimately show False using hc by simp
  qed
  obtain xs where xs: "pchain ?P v xs" "length xs + ?h v = ?h s"
    using T(5)[OF nw False] unfolding v_def by blast
  have "?h u < ?h v" using near vin by simp
  then have hv: "?h v = ?h u + 1" using hc \<open>c = v\<close> by simp
  have "pchain ?P u (xs @ [v])" using pchain.link[of ?P u v xs] c xs(1) \<open>c = v\<close> by simp
  moreover have "length (xs @ [v]) + ?h u = ?h s" using xs(2) hv by simp
  ultimately show ?thesis using near by blast
qed

lemma grinv_pop:
  assumes I: "grinv g s e {} st" and S: "grscore g s e st"
    and q: "g_openSet st = (u, p) # rest" and ne: "u \<noteq> e"
  shows "grinv g s e ({u} \<times> set (getNeighbors (fst u) (snd u) g))
           \<lparr>g_order = g_order st @ [u], g_openSet = rest,
            g_closedSet = insert u (g_closedSet st), g_previousNodes = g_previousNodes st\<rparr>
       \<and> grscore g s e
           \<lparr>g_order = g_order st @ [u], g_openSet = rest,
            g_closedSet = insert u (g_closedSet st), g_previousNodes = g_previousNodes st\<rparr>"
proof
  note N = grinvD[OF I] and T = grscoreD[OF S]
  let ?ex = "{u} \<times> set (getNeighbors (fst u) (snd u) g)"
  have uin: "u \<in> set (map fst (g_openSet st))" using q by simp
  have nv: "u \<notin> set (g_order st)" using N(6) uin by auto
  have ur: "u \<notin> set (map fst rest)" and dr: "distinct (map fst rest)" using N(5) q by simp_all
  show "grinv g s e ?ex \<lparr>g_order = g_order st @ [u], g_openSet = rest,
            g_closedSet = insert u (g_closedSet st), g_previousNodes = g_previousNodes st\<rparr>"
  proof (rule grinvI)
    show "ginv g s e ?ex (g_order st @ [u]) (set (map fst rest)) (predOf (g_previousNodes st))"
      by (rule ginv_pop[OF N(4) uin nv ne]) (use q move_neighbor in auto)
    show "set (map fst rest) \<inter> set (g_order st @ [u]) = {}" using N(6) q ur by auto
    show "insert u (g_closedSet st) = set (g_order st @ [u])" using N(7) by simp
  qed (use N dr in auto)
  show "grscore g s e \<lparr>g_order = g_order st @ [u], g_openSet = rest,
            g_closedSet = insert u (g_closedSet st), g_previousNodes = g_previousNodes st\<rparr>"
  proof (rule grscoreI)
    show "sorted (map snd rest)" using T(1) q by simp
    show "rest = [(s, 0)]" if "g_order st @ [u] = []" using that by simp
    show "snd x = manhattanDistance (fst x) e" if "g_order st @ [u] \<noteq> []" "x \<in> set rest" for x
    proof (cases "g_order st = []")
      case True
      then show ?thesis using T(2) q that(2) by simp
    next
      case False
      then show ?thesis using T(3)[OF False, of x] q that(2) by simp
    qed
    show "manhattanDistance (last (g_order st @ [u])) e < manhattanDistance c e"
      if "noWalls g" "c \<in> set (butlast (g_order st @ [u]))" for c
      using grinv_front_H[OF I S that(1) q] that(2) by simp
    show "\<exists>xs. pchain (predOf (g_previousNodes st)) (last (g_order st @ [u])) xs
               \<and> length xs + manhattanDistance (last (g_order st @ [u])) e = manhattanDistance s e"
      if "noWalls g" "g_order st @ [u] \<noteq> []"
      using grinv_front_H[OF I S that(1) q] by simp
  qed
qed

lemma grinv_order_bound:
  assumes "grinv g s e ex st"
  shows "length (g_order st) \<le> length g * length (hd g)"
proof -
  note G = ginvD[OF grinvD(4)[OF assms]]
  show ?thesis by (rule inb_count[OF G(1)]) (use G(4) in \<open>auto simp: inBounds_inb\<close>)
qed

lemma greedy_loop_total:
  "grinv g s e {} st \<Longrightarrow> grscore g s e st \<Longrightarrow>
     \<exists>st' ys. greedy_loop g e st = Some st'
        \<and> getNodesInShortestPathOrder (g_previousNodes st') e = Some ys
        \<and> gfinal g s e (g_order st') ys
        \<and> (noWalls g \<longrightarrow> e \<in> set (g_order st') \<longrightarrow> length ys = manhattanDistance s e)"
proof (induction "length g * length (hd g) - length (g_order st)" arbitrary: st rule: less_induct)
  case less
  note N = grinvD[OF less.prems(1)]
  let ?P = "predOf (g_previousNodes st)"
  show ?case
  proof (cases "g_openSet st")
    case Nil
    have 1: "greedy_loop g e st = Some st" using Nil by (subst greedy_loop.simps) (simp add: isEmpty_def)
    have G: "ginv g s e {} (g_order st) {} ?P" using N(4) Nil by simp
    from ginv_exhaust[OF G] have c: "pchain ?P e []" "gfinal g s e (g_order st) []" by auto
    have "\<forall>x \<in> insert e (set []). inb (length g) (length (hd g)) x"
      using N(2) by (simp add: inBounds_inb)
    from getNodes_chain[OF N(3) c(1) this]
    have 2: "getNodesInShortestPathOrder (g_previousNodes st) e = Some []" .
    have "e \<notin> set (g_order st)" using ginvD(2)[OF N(4)] .
    then show ?thesis using 1 2 c(2) by auto
  next
    case (Cons item rest)
    obtain u p where item: "item = (u, p)" by (cases item)
    have q: "g_openSet st = (u, p) # rest" using Cons item by simp
    have uin: "u \<in> set (map fst (g_openSet st))" using q by simp
    show ?thesis
    proof (cases "u = e")
      case True
      define st1 where "st1 = st\<lparr>g_openSet := rest, g_order := g_order st @ [u]\<rparr>"
      have 1: "greedy_loop g e st = Some st1"
        using q by (subst greedy_loop.simps) (simp add: isEmpty_def Let_def st1_def coord_eq True[symmetric])
      have ein: "e \<in> set (map fst (g_openSet st))" using uin True by simp
      obtain ys where ys: "pchain ?P e ys" "gfinal g s e (g_order st @ [e]) ys"
        using ginv_break[OF N(4) ein] by blast
      have "\<forall>x \<in> insert e (set ys). inb (length g) (length (hd g)) x"
        using ys(2) N(2) unfolding gfinal_def by (auto simp: inBounds_inb)
      from getNodes_chain[OF N(3) ys(1) this]
      have 2: "getNodesInShortestPathOrder (g_previousNodes st) e = Some ys" .
      have 3: "length ys = manhattanDistance s e" if nw: "noWalls g"
      proof -
        obtain xs where xs: "pchain ?P u xs" "length xs + manhattanDistance u e = manhattanDistance s e"
          using grinv_front_H[OF less.prems nw q] by blast
        have "xs = ys" using pchain_fun[OF xs(1)] ys(1) True by simp
        then show ?thesis using xs(2) True by (simp add: manhattanDistance_def)
      qed
      show ?thesis using 1 2 3 ys(2) True by (auto simp: st1_def)
    next
      case ne: False
      define st1 where "st1 = \<lparr>g_order = g_order st @ [u], g_openSet = rest,
            g_closedSet = insert u (g_closedSet st), g_previousNodes = g_previousNodes st\<rparr>"
      have st1: "st\<lparr>g_openSet := rest, g_closedSet := insert u (g_closedSet st),
                     g_order := g_order st @ [u]\<rparr> = st1"
        by (simp add: st1_def)
      have I1: "grinv g s e ({u} \<times> set (getNeighbors (fst u) (snd u) g)) st1" "grscore g s e st1"
        unfolding st1_def using grinv_pop[OF less.prems q ne] by simp_all
      have n: "\<forall>w \<in> set (getNeighbors (fst u) (snd u) g). adjacent u w \<and> inBounds g w"
        using set_getNeighbors[of _ "fst u" "snd u" g] by simp
      have l: "g_order st1 \<noteq> []" "last (g_order st1) = u" by (simp_all add: st1_def)
      from grelax_all[OF l n I1] obtain st2 where
        st2: "forEach (greedy_relax g e u) st1 (getNeighbors (fst u) (snd u) g) = Some st2"
          "grinv g s e {} st2" "grscore g s e st2" "g_order st2 = g_order st1"
        by blast
      have "length (g_order st2) \<le> length g * length (hd g)" by (rule grinv_order_bound[OF st2(2)])
      then have m: "length g * length (hd g) - length (g_order st2) < length g * length (hd g) - length (g_order st)"
        using st2(4) by (simp add: st1_def)
      have "greedy_loop g e st = greedy_loop g e st2"
        using q ne st2(1)
        by (subst greedy_loop.simps) (simp add: isEmpty_def Let_def st1 coord_eq)
      then show ?thesis using less.hyps[OF m st2(2,3)] by simp
    qed
  qed
qed

theorem greedy_total:
  assumes r: "rectangular g" and s: "inBounds g s" and e: "inBounds g e"
  shows "\<exists>res. greedy (Some g) (Some s) (Some e) = Some res
           \<and> gfinal g s e (visitedNodesInOrder res) (shortestPath res)
           \<and> (noWalls g \<longrightarrow> e \<in> set (visitedNodesInOrder res)
                 \<longrightarrow> length (shortestPath res) = manhattanDistance s e)"
proof -
  let ?st0 = "\<lparr>g_order = [], g_openSet = [(s, 0::nat)], g_closedSet = {},
           g_previousNodes = newArray2 g None\<rparr>"
  have A: "grinv g s e {} ?st0"
  proof (rule grinvI)
    show "ginv g s e {} [] (set (map fst [(s, 0::nat)])) (predOf (newArray2 g None))"
      using ginv_init[OF s, of e] by (simp add: predOf_new)
    show "dims (newArray2 g (None :: coord option)) (length g) (length (hd g))" by (rule dims_newArray2)
  qed (use r e in simp_all)
  have B: "grscore g s e ?st0" by (rule grscoreI) simp_all
  obtain st' ys where l: "greedy_loop g e ?st0 = Some st'"
      "getNodesInShortestPathOrder (g_previousNodes st') e = Some ys"
      "gfinal g s e (g_order st') ys"
      "noWalls g \<longrightarrow> e \<in> set (g_order st') \<longrightarrow> length ys = manhattanDistance s e"
    using greedy_loop_total[OF A B] by blast
  have "greedy (Some g) (Some s) (Some e) = Some \<lparr>visitedNodesInOrder = g_order st', shortestPath = ys\<rparr>"
    using rectangular_valid[OF r] l(1,2) by (simp add: greedy_def enqueue_empty)
  then show ?thesis using l(3,4) by simp
qed

section \<open>All five searches\<close>

lemma everySearch_gfinal:
  assumes "rectangular g" and "inBounds g s" and "inBounds g e"
  shows "everySearch g s e (gfinal g s e)"
  unfolding everySearch_def
  using dijkstra_total[OF assms] bfs_total[OF assms] dfs_total[OF assms]
    astar_total[OF assms] greedy_total[OF assms]
  by blast

lemma everySearch_mono:
  assumes "everySearch g s e Q" and "\<And>vis ys. Q vis ys \<Longrightarrow> Q' vis ys"
  shows "everySearch g s e Q'"
  using assms unfolding everySearch_def by blast

text \<open>The cells of a grid are finitely many, and so are the cells reachable from s.\<close>

lemma finite_inb: "finite {p. inb R C p}"
proof -
  have "{p. inb R C p} \<subseteq> (\<lambda>(i, j). (int i, int j)) ` ({..<R} \<times> {..<C})"
  proof
    fix p assume "p \<in> {p. inb R C p}"
    then have i: "inb R C p" by simp
    obtain r c where p: "p = (r, c)" by (cases p)
    have "(nat r, nat c) \<in> {..<R} \<times> {..<C}" "p = (int (nat r), int (nat c))"
      using i p by (auto simp: inb_def)
    then show "p \<in> (\<lambda>(i, j). (int i, int j)) ` ({..<R} \<times> {..<C})"
      by (metis (no_types, lifting) image_eqI case_prod_conv)
  qed
  then show ?thesis by (rule finite_subset) simp
qed

lemma reachable_inBounds: "inBounds g s \<Longrightarrow> reachable g s w \<Longrightarrow> inBounds g w"
proof -
  assume s: "inBounds g s" and "reachable g s w"
  then obtain ws where ws: "walk g s ws" "last (s # ws) = w" by (auto simp: reachable_def route_def)
  show ?thesis
  proof (cases ws rule: rev_cases)
    case Nil
    then show ?thesis using ws(2) s by simp
  next
    case (snoc zs z)
    then have "move g (last (s # zs)) z" using ws(1) by (simp add: walk_append del: last.simps)
    then show ?thesis using ws(2) snoc by (simp add: move_def)
  qed
qed

lemma finite_reachable:
  assumes "inBounds g s"
  shows "finite {w. reachable g s w}"
proof -
  have "{w. reachable g s w} \<subseteq> {p. inb (length g) (length (hd g)) p}"
    using reachable_inBounds[OF assms] by (auto simp: inBounds_inb)
  then show ?thesis using finite_inb by (rule finite_subset)
qed

lemma gfinal_region:
  assumes "gfinal g s e vis ys" and "inBounds g s"
  shows "length vis \<le> card {w. reachable g s w}"
proof -
  have "distinct vis" "set vis \<subseteq> {w. reachable g s w}" using assms(1) unfolding gfinal_def by auto
  then show ?thesis using card_mono[OF finite_reachable[OF assms(2)], of "set vis"] distinct_card[of vis]
    by simp
qed

lemma gfinal_count:
  assumes "gfinal g s e vis ys"
  shows "length vis \<le> length g * length (hd g)"
proof -
  have "distinct vis" "\<forall>p \<in> set vis. inb (length g) (length (hd g)) p"
    using assms unfolding gfinal_def by (auto simp: inBounds_inb)
  then show ?thesis by (rule inb_count)
qed

text \<open>A set of cells that no move leaves holds every cell reachable from inside it.\<close>

lemma closed_region:
  assumes "s \<in> R" and "\<And>u w. u \<in> R \<Longrightarrow> move g u w \<Longrightarrow> w \<in> R" and "reachable g s e"
  shows "e \<in> R"
proof -
  have "walk g s ws \<Longrightarrow> last (s # ws) \<in> R" for ws
  proof (induction ws rule: rev_induct)
    case Nil
    then show ?case using assms(1) by simp
  next
    case (snoc w ws)
    then have "last (s # ws) \<in> R" "move g (last (s # ws)) w"
      by (simp_all add: walk_append del: last.simps)
    then show ?case using assms(2) by simp
  qed
  then show ?thesis using assms(3) unfolding reachable_def route_def by blast
qed

section \<open>Claim C8: start equal to end\<close>

text \<open>
  Claim C8. On a grid in which start is in bounds, a search whose end equals its start
  returns the one-element visited order [start] and the empty path, for each of the five
  algorithms: the first node taken from the frontier is the end, and no predecessor has
  been recorded. The empty path is also what an unreachable end gives.
\<close>

theorem C8_start_equals_end:
  assumes "inBounds g s"
  shows "(\<exists>d. dijkstra (Some g) (Some s) (Some s) =
            Some \<lparr>visitedNodesInOrder = [s], shortestPath = [], distances = d\<rparr>)
       \<and> bfs (Some g) (Some s) (Some s) = Some \<lparr>visitedNodesInOrder = [s], shortestPath = []\<rparr>
       \<and> dfs (Some g) (Some s) (Some s) = Some \<lparr>visitedNodesInOrder = [s], shortestPath = []\<rparr>
       \<and> astar (Some g) (Some s) (Some s) = Some \<lparr>visitedNodesInOrder = [s], shortestPath = []\<rparr>
       \<and> greedy (Some g) (Some s) (Some s) = Some \<lparr>visitedNodesInOrder = [s], shortestPath = []\<rparr>"
  using assms by (simp add: dijkstra_same bfs_same dfs_same astar_same greedy_same)

theorem C8_start_equals_end_witness:
  "inBounds (createGridWithWalls 2 2) (1, 0)
   \<and> (\<exists>d. dijkstra (Some (createGridWithWalls 2 2)) (Some (1, 0)) (Some (1, 0)) =
            Some \<lparr>visitedNodesInOrder = [(1, 0)], shortestPath = [], distances = d\<rparr>)
   \<and> bfs (Some (createGridWithWalls 2 2)) (Some (1, 0)) (Some (1, 0)) =
        Some \<lparr>visitedNodesInOrder = [(1, 0)], shortestPath = []\<rparr>
   \<and> dfs (Some (createGridWithWalls 2 2)) (Some (1, 0)) (Some (1, 0)) =
        Some \<lparr>visitedNodesInOrder = [(1, 0)], shortestPath = []\<rparr>
   \<and> astar (Some (createGridWithWalls 2 2)) (Some (1, 0)) (Some (1, 0)) =
        Some \<lparr>visitedNodesInOrder = [(1, 0)], shortestPath = []\<rparr>
   \<and> greedy (Some (createGridWithWalls 2 2)) (Some (1, 0)) (Some (1, 0)) =
        Some \<lparr>visitedNodesInOrder = [(1, 0)], shortestPath = []\<rparr>"
proof -
  have h: "inBounds (createGridWithWalls 2 2) (1, 0)" by code_simp
  show ?thesis using h C8_start_equals_end[OF h] by simp
qed

section \<open>Claim C4: dequeue on the empty queue\<close>

text \<open>
  Claim C4 (as stated: dequeue on an empty queue fails with an EmptyQueue condition and
  returns no value). The code is Array.prototype.shift, which returns undefined on the
  empty array; the first theorem evaluates it there.
\<close>

theorem C4_dequeue_empty_counterexample:
  "dequeue ([] :: enat pqueue) = (None, [])"
  by simp

text \<open>
  Claim C4, amended: dequeue on an empty queue returns undefined (None) and leaves the
  queue empty; it raises nothing.
\<close>

theorem C4_dequeue_empty_returns_undefined:
  "isEmpty q \<Longrightarrow> dequeue q = (None, q)"
  by (cases q) (simp_all add: isEmpty_def)

theorem C4_dequeue_empty_returns_undefined_witness:
  "isEmpty ([] :: enat pqueue) \<and> dequeue ([] :: enat pqueue) = (None, [])"
proof -
  have h: "isEmpty ([] :: enat pqueue)" by (simp add: isEmpty_def)
  show ?thesis using h C4_dequeue_empty_returns_undefined[OF h] by simp
qed

section \<open>Claim C5: the input guard\<close>

text \<open>
  Claim C5 (as stated: every empty or malformed grid gives the empty result, and no call
  throws). The guard looks at the grid, its number of rows and its first row only. A grid
  whose second row is empty passes it and dijkstra visits the start; a grid whose second
  row is shorter than the first passes it and bfs reads the isWall flag of a missing cell,
  which throws.
\<close>

theorem C5_malformed_grid_counterexample:
  "\<not> rectangular (gridOf [[False], []])
   \<and> dijkstra (Some (gridOf [[False], []])) (Some (0, 0)) (Some (0, 0)) =
       Some \<lparr>visitedNodesInOrder = [(0, 0)], shortestPath = [], distances = [[0], [\<infinity>]]\<rparr>
   \<and> \<not> rectangular (gridOf [[False, False], [False]])
   \<and> bfs (Some (gridOf [[False, False], [False]])) (Some (0, 0)) (Some (1, 1)) = None"
  by code_simp

text \<open>
  Claim C5, amended: when the grid is null, has no rows or has an empty first row, or
  when start or end is null, each of the five algorithms returns the empty result
  (dijkstra with empty distances) and does not throw.
\<close>

theorem C5_guarded_input_gives_empty_result:
  assumes "grid = None \<or> grid = Some [] \<or> (\<exists>rest. grid = Some ([] # rest))
           \<or> start = None \<or> end = None"
  shows "dijkstra grid start end =
           Some \<lparr>visitedNodesInOrder = [], shortestPath = [], distances = []\<rparr>
       \<and> bfs grid start end = Some \<lparr>visitedNodesInOrder = [], shortestPath = []\<rparr>
       \<and> dfs grid start end = Some \<lparr>visitedNodesInOrder = [], shortestPath = []\<rparr>
       \<and> astar grid start end = Some \<lparr>visitedNodesInOrder = [], shortestPath = []\<rparr>
       \<and> greedy grid start end = Some \<lparr>visitedNodesInOrder = [], shortestPath = []\<rparr>"
proof -
  have "invalidInput grid start end"
    using assms by (auto simp: invalidInput_def split: option.splits)
  then show ?thesis
    by (simp add: dijkstra_def bfs_def dfs_def astar_def greedy_def emptyResult_def emptyDResult_def)
qed

theorem C5_guarded_input_gives_empty_result_witness:
  "(Some ([] # [[mkCell 1 0 False]]) = None \<or> Some ([] # [[mkCell 1 0 False]]) = Some []
      \<or> (\<exists>rest. Some ([] # [[mkCell 1 0 False]]) = Some ([] # rest))
      \<or> Some (0, 0) = (None :: coord option) \<or> Some (1, 0) = (None :: coord option))
   \<and> dijkstra (Some ([] # [[mkCell 1 0 False]])) (Some (0, 0)) (Some (1, 0)) =
           Some \<lparr>visitedNodesInOrder = [], shortestPath = [], distances = []\<rparr>
   \<and> bfs (Some ([] # [[mkCell 1 0 False]])) (Some (0, 0)) (Some (1, 0)) =
           Some \<lparr>visitedNodesInOrder = [], shortestPath = []\<rparr>
   \<and> dfs (Some ([] # [[mkCell 1 0 False]])) (Some (0, 0)) (Some (1, 0)) =
           Some \<lparr>visitedNodesInOrder = [], shortestPath = []\<rparr>
   \<and> astar (Some ([] # [[mkCell 1 0 False]])) (Some (0, 0)) (Some (1, 0)) =
           Some \<lparr>visitedNodesInOrder = [], shortestPath = []\<rparr>
   \<and> greedy (Some ([] # [[mkCell 1 0 False]])) (Some (0, 0)) (Some (1, 0)) =
           Some \<lparr>visitedNodesInOrder = [], shortestPath = []\<rparr>"
proof -
  have h: "Some ([] # [[mkCell 1 0 False]]) = None \<or> Some ([] # [[mkCell 1 0 False]]) = Some []
      \<or> (\<exists>rest. Some ([] # [[mkCell 1 0 False]]) = Some ([] # rest))
      \<or> Some (0, 0) = (None :: coord option) \<or> Some (1, 0) = (None :: coord option)"
    by simp
  show ?thesis
    using h C5_guarded_input_gives_empty_result[OF h] by blast
qed

section \<open>Claim C6: astar leaves the priority of a queued neighbour unchanged\<close>

text \<open>
  Claim C6. When the tentative g-score of a neighbour improves while the neighbour is
  already in the open queue, astar stores the new predecessor, g-score and f-score and
  leaves the queue as it is, so the queued entry keeps its old priority. The returned
  path is not always minimal: on detourGrid, from (0, 2) to (7, 2), astar returns a path
  of 13 moves although a route of 11 moves exists.
\<close>

theorem C6_astar_keeps_stale_priority:
  "(nb \<notin> a_closedSet st \<and> read2 g nb = Some cl \<and> \<not> isWall cl
      \<and> read2 (a_gScore st) cur = Some gcur \<and> read2 (a_gScore st) nb = Some gnb
      \<and> gcur + 1 < gnb \<and> hasNode (a_openSet st) (fst nb) (snd nb)
      \<and> read2 (a_previousNodes st) nb \<noteq> None \<and> read2 (a_fScore st) nb \<noteq> None
    \<longrightarrow> (\<exists>st'. astar_relax g e cur st nb = Some st'
           \<and> read2 (a_previousNodes st') nb = Some (Some cur)
           \<and> read2 (a_gScore st') nb = Some (gcur + 1)
           \<and> read2 (a_fScore st') nb = Some (gcur + 1 + enat (manhattanDistance nb e))
           \<and> a_openSet st' = a_openSet st))
   \<and> astar (Some detourGrid)
        (Some (0, 2)) (Some (7, 2)) =
      Some \<lparr>visitedNodesInOrder =
              [(0, 2), (1, 2), (1, 1), (1, 3), (2, 3), (3, 3), (4, 3), (3, 2), (5, 3), (5, 2),
               (1, 0), (3, 1), (5, 1), (2, 0), (4, 1), (3, 0), (5, 0), (4, 0), (6, 0), (7, 0),
               (7, 1), (7, 2)],
            shortestPath =
              [(0, 2), (1, 2), (1, 3), (2, 3), (3, 3), (4, 3), (5, 3), (5, 2), (5, 1), (5, 0),
               (6, 0), (7, 0), (7, 1)]\<rparr>
   \<and> route detourGrid
        (0, 2)
        [(1, 2), (1, 1), (1, 0), (2, 0), (3, 0), (4, 0), (5, 0), (6, 0), (7, 0), (7, 1), (7, 2)]
        (7, 2)"
proof (intro conjI impI)
  assume h: "nb \<notin> a_closedSet st \<and> read2 g nb = Some cl \<and> \<not> isWall cl
      \<and> read2 (a_gScore st) cur = Some gcur \<and> read2 (a_gScore st) nb = Some gnb
      \<and> gcur + 1 < gnb \<and> hasNode (a_openSet st) (fst nb) (snd nb)
      \<and> read2 (a_previousNodes st) nb \<noteq> None \<and> read2 (a_fScore st) nb \<noteq> None"
  obtain pv where pv: "write2 (a_previousNodes st) nb (Some cur) = Some pv"
      "read2 pv nb = Some (Some cur)"
    using write2_after_read2[of "a_previousNodes st" nb "Some cur"] h by blast
  obtain gs where gs: "write2 (a_gScore st) nb (gcur + 1) = Some gs"
      "read2 gs nb = Some (gcur + 1)"
    using write2_after_read2[of "a_gScore st" nb "gcur + 1"] h by auto
  obtain fs where fs: "write2 (a_fScore st) nb (gcur + 1 + enat (manhattanDistance nb e)) = Some fs"
      "read2 fs nb = Some (gcur + 1 + enat (manhattanDistance nb e))"
    using write2_after_read2[of "a_fScore st" nb "gcur + 1 + enat (manhattanDistance nb e)"] h
    by blast
  show "\<exists>st'. astar_relax g e cur st nb = Some st'
           \<and> read2 (a_previousNodes st') nb = Some (Some cur)
           \<and> read2 (a_gScore st') nb = Some (gcur + 1)
           \<and> read2 (a_fScore st') nb = Some (gcur + 1 + enat (manhattanDistance nb e))
           \<and> a_openSet st' = a_openSet st"
    using h pv gs fs by (simp add: astar_relax_def Let_def)
next
  show "astar (Some detourGrid)
        (Some (0, 2)) (Some (7, 2)) =
      Some \<lparr>visitedNodesInOrder =
              [(0, 2), (1, 2), (1, 1), (1, 3), (2, 3), (3, 3), (4, 3), (3, 2), (5, 3), (5, 2),
               (1, 0), (3, 1), (5, 1), (2, 0), (4, 1), (3, 0), (5, 0), (4, 0), (6, 0), (7, 0),
               (7, 1), (7, 2)],
            shortestPath =
              [(0, 2), (1, 2), (1, 3), (2, 3), (3, 3), (4, 3), (5, 3), (5, 2), (5, 1), (5, 0),
               (6, 0), (7, 0), (7, 1)]\<rparr>"
    by code_simp
next
  show "route detourGrid
        (0, 2)
        [(1, 2), (1, 1), (1, 0), (2, 0), (3, 0), (4, 0), (5, 0), (6, 0), (7, 0), (7, 1), (7, 2)]
        (7, 2)"
    by code_simp
qed

theorem C6_astar_keeps_stale_priority_witness:
  "((0, 1) \<notin> a_closedSet staleState
      \<and> read2 (createGridWithWalls 1 2) (0, 1) = Some (mkCell 0 1 False) \<and> \<not> isWall (mkCell 0 1 False)
      \<and> read2 (a_gScore staleState) (0, 0) = Some 0 \<and> read2 (a_gScore staleState) (0, 1) = Some 3
      \<and> (0::enat) + 1 < 3 \<and> hasNode (a_openSet staleState) 0 1
      \<and> read2 (a_previousNodes staleState) (0, 1) \<noteq> None \<and> read2 (a_fScore staleState) (0, 1) \<noteq> None)
   \<and> (\<exists>st'. astar_relax (createGridWithWalls 1 2) (0, 1) (0, 0) staleState (0, 1) = Some st'
           \<and> read2 (a_previousNodes st') (0, 1) = Some (Some (0, 0))
           \<and> read2 (a_gScore st') (0, 1) = Some 1
           \<and> a_openSet st' = [((0, 1), 5)])"
proof -
  have h: "(0, 1) \<notin> a_closedSet staleState
      \<and> read2 (createGridWithWalls 1 2) (0, 1) = Some (mkCell 0 1 False) \<and> \<not> isWall (mkCell 0 1 False)
      \<and> read2 (a_gScore staleState) (0, 0) = Some 0 \<and> read2 (a_gScore staleState) (0, 1) = Some 3
      \<and> (0::enat) + 1 < 3 \<and> hasNode (a_openSet staleState) 0 1
      \<and> read2 (a_previousNodes staleState) (0, 1) \<noteq> None \<and> read2 (a_fScore staleState) (0, 1) \<noteq> None"
    by code_simp
  have "a_openSet staleState = [((0, 1), 5)]" by (simp add: staleState_def)
  then show ?thesis
    using h C6_astar_keeps_stale_priority[of "(0, 1)" staleState "createGridWithWalls 1 2"
        "mkCell 0 1 False" "(0, 0)" 0 3 "(0, 1)"]
    by auto
qed

section \<open>Claim C1: dijkstra and bfs return paths of equal, minimal length\<close>

text \<open>
  Claim C1. On every rectangular grid with start and end in bounds, dijkstra and bfs
  both return; their paths have the same length; no route from start to end (a
  sequence of 4-connected moves into cells that are in the grid and not walls) has
  fewer moves than the returned path has cells, and when end is reachable some route
  has exactly that many moves. For every cell in dijkstra's visited order the stored
  distance is finite, is the length of some route from start to that cell, and no
  route to it is shorter. The start cell itself is never tested for a wall by the
  algorithms, and a route does not test it either.
\<close>

theorem C1_dijkstra_bfs_minimal:
  assumes "rectangular g" and "inBounds g s" and "inBounds g e"
  shows "\<exists>rd rb. dijkstra (Some g) (Some s) (Some e) = Some rd
           \<and> bfs (Some g) (Some s) (Some e) = Some rb
           \<and> length (shortestPath rd) = length (shortestPath rb)
           \<and> (\<forall>ws. route g s ws e \<longrightarrow> length (shortestPath rd) \<le> length ws)
           \<and> (reachable g s e \<longrightarrow> (\<exists>ws. route g s ws e \<and> length ws = length (shortestPath rd)))
           \<and> (\<forall>v \<in> set (visitedNodesInOrder rd). \<exists>n. read2 (distances rd) v = Some (enat n)
                 \<and> (\<exists>ws. route g s ws v \<and> length ws = n)
                 \<and> (\<forall>ws. route g s ws v \<longrightarrow> n \<le> length ws))"
proof -
  obtain rd where rd: "dijkstra (Some g) (Some s) (Some e) = Some rd"
      "gfinal g s e (visitedNodesInOrder rd) (shortestPath rd)"
      "\<forall>ws. route g s ws e \<longrightarrow> length (shortestPath rd) \<le> length ws"
      "\<forall>v \<in> set (visitedNodesInOrder rd). \<exists>n. read2 (distances rd) v = Some (enat n)
                 \<and> (\<exists>ws. route g s ws v \<and> length ws = n)
                 \<and> (\<forall>ws. route g s ws v \<longrightarrow> n \<le> length ws)"
    using dijkstra_total[OF assms] by blast
  obtain rb where rb: "bfs (Some g) (Some s) (Some e) = Some rb"
      "gfinal g s e (visitedNodesInOrder rb) (shortestPath rb)"
      "\<forall>ws. route g s ws e \<longrightarrow> length (shortestPath rb) \<le> length ws"
    using bfs_total[OF assms] by blast
  have eq: "length (shortestPath rd) = length (shortestPath rb)"
  proof (cases "reachable g s e")
    case True
    obtain wd where wd: "route g s wd e" "length wd = length (shortestPath rd)"
      using gfinal_route[OF rd(2) True] by blast
    obtain wb where wb: "route g s wb e" "length wb = length (shortestPath rb)"
      using gfinal_route[OF rb(2) True] by blast
    have "length (shortestPath rd) \<le> length wb" using rd(3) wb(1) by blast
    moreover have "length (shortestPath rb) \<le> length wd" using rb(3) wd(1) by blast
    ultimately show ?thesis using wd(2) wb(2) by simp
  next
    case False
    then show ?thesis using gfinal_unreachable[OF rd(2)] gfinal_unreachable[OF rb(2)] by simp
  qed
  have "reachable g s e \<longrightarrow> (\<exists>ws. route g s ws e \<and> length ws = length (shortestPath rd))"
    using gfinal_route[OF rd(2)] by blast
  then show ?thesis using rd(1,3,4) rb(1) eq by blast
qed

theorem C1_dijkstra_bfs_minimal_witness:
  "rectangular (gridOf [[False, False], [True, False]])
   \<and> inBounds (gridOf [[False, False], [True, False]]) (0, 0)
   \<and> inBounds (gridOf [[False, False], [True, False]]) (1, 1)
   \<and> (\<exists>rd rb. dijkstra (Some (gridOf [[False, False], [True, False]])) (Some (0, 0)) (Some (1, 1)) = Some rd
           \<and> bfs (Some (gridOf [[False, False], [True, False]])) (Some (0, 0)) (Some (1, 1)) = Some rb
           \<and> length (shortestPath rd) = length (shortestPath rb)
           \<and> (\<forall>ws. route (gridOf [[False, False], [True, False]]) (0, 0) ws (1, 1)
                 \<longrightarrow> length (shortestPath rd) \<le> length ws)
           \<and> (reachable (gridOf [[False, False], [True, False]]) (0, 0) (1, 1) \<longrightarrow>
                 (\<exists>ws. route (gridOf [[False, False], [True, False]]) (0, 0) ws (1, 1)
                    \<and> length ws = length (shortestPath rd)))
           \<and> (\<forall>v \<in> set (visitedNodesInOrder rd). \<exists>n. read2 (distances rd) v = Some (enat n)
                 \<and> (\<exists>ws. route (gridOf [[False, False], [True, False]]) (0, 0) ws v \<and> length ws = n)
                 \<and> (\<forall>ws. route (gridOf [[False, False], [True, False]]) (0, 0) ws v \<longrightarrow> n \<le> length ws)))"
proof -
  have h: "rectangular (gridOf [[False, False], [True, False]])"
      "inBounds (gridOf [[False, False], [True, False]]) (0, 0)"
      "inBounds (gridOf [[False, False], [True, False]]) (1, 1)"
    by code_simp+
  show ?thesis using h C1_dijkstra_bfs_minimal[OF h] by blast
qed

section \<open>Claim C10: no cell is visited twice\<close>

text \<open>
  Claim C10. On every rectangular grid with start and end in bounds, each of the five
  algorithms returns a visited order that holds no coordinate twice, and whose length
  is therefore at most the number of rows times the number of columns of the grid.
\<close>

theorem C10_visited_at_most_once:
  assumes "rectangular g" and "inBounds g s" and "inBounds g e"
  shows "everySearch g s e (\<lambda>vis ys. distinct vis \<and> length vis \<le> length g * length (hd g))"
proof (rule everySearch_mono[OF everySearch_gfinal[OF assms]])
  fix vis ys assume f: "gfinal g s e vis ys"
  then have "distinct vis" unfolding gfinal_def by blast
  then show "distinct vis \<and> length vis \<le> length g * length (hd g)"
    using gfinal_count[OF f] by simp
qed

theorem C10_visited_at_most_once_witness:
  "rectangular (gridOf [[False, False, False], [False, True, False]])
   \<and> inBounds (gridOf [[False, False, False], [False, True, False]]) (1, 0)
   \<and> inBounds (gridOf [[False, False, False], [False, True, False]]) (1, 2)
   \<and> everySearch (gridOf [[False, False, False], [False, True, False]]) (1, 0) (1, 2)
        (\<lambda>vis ys. distinct vis
           \<and> length vis \<le> length (gridOf [[False, False, False], [False, True, False]])
                * length (hd (gridOf [[False, False, False], [False, True, False]])))"
proof -
  have h: "rectangular (gridOf [[False, False, False], [False, True, False]])"
      "inBounds (gridOf [[False, False, False], [False, True, False]]) (1, 0)"
      "inBounds (gridOf [[False, False, False], [False, True, False]]) (1, 2)"
    by code_simp+
  show ?thesis using h C10_visited_at_most_once[OF h] by simp
qed

section \<open>Claim C7: an end that cannot be reached\<close>

text \<open>
  Claim C7. On every rectangular grid with start and end in bounds, if no sequence of
  moves through cells that are not walls leads from start to end, then each of the five
  algorithms returns an empty path together with a visited order that is not empty,
  does not hold end, and has at most as many entries as there are cells reachable
  from start.
\<close>

theorem C7_unreachable_end:
  assumes "rectangular g" and "inBounds g s" and "inBounds g e" and "\<not> reachable g s e"
  shows "everySearch g s e
           (\<lambda>vis ys. ys = [] \<and> vis \<noteq> [] \<and> e \<notin> set vis \<and> length vis \<le> card {w. reachable g s w})"
proof (rule everySearch_mono[OF everySearch_gfinal[OF assms(1,2,3)]])
  fix vis ys assume f: "gfinal g s e vis ys"
  have "ys = []" using gfinal_unreachable[OF f assms(4)] .
  moreover have "vis \<noteq> []" "e \<notin> set vis" using f assms(4) unfolding gfinal_def by blast+
  ultimately show "ys = [] \<and> vis \<noteq> [] \<and> e \<notin> set vis \<and> length vis \<le> card {w. reachable g s w}"
    using gfinal_region[OF f assms(2)] by simp
qed

theorem C7_unreachable_end_witness:
  "rectangular (gridOf [[False, True, False]])
   \<and> inBounds (gridOf [[False, True, False]]) (0, 0)
   \<and> inBounds (gridOf [[False, True, False]]) (0, 2)
   \<and> \<not> reachable (gridOf [[False, True, False]]) (0, 0) (0, 2)
   \<and> everySearch (gridOf [[False, True, False]]) (0, 0) (0, 2)
        (\<lambda>vis ys. ys = [] \<and> vis \<noteq> [] \<and> (0, 2) \<notin> set vis
           \<and> length vis \<le> card {w. reachable (gridOf [[False, True, False]]) (0, 0) w})"
proof -
  let ?g = "gridOf [[False, True, False]]"
  have h: "rectangular ?g" "inBounds ?g (0, 0)" "inBounds ?g (0, 2)"
    by code_simp+
  have n: "\<not> inBounds ?g (- 1, 0)" "\<not> inBounds ?g (1, 0)" "\<not> inBounds ?g (0, - 1)" "wallAt ?g (0, 1)"
    by code_simp+
  have "w \<in> {(0, 0)}" if "u \<in> {(0, 0)}" "move ?g u w" for u w :: coord
    using that n unfolding move_def by (auto simp: adjacent_cases)
  then have u: "\<not> reachable ?g (0, 0) (0, 2)"
    using closed_region[of "(0, 0)" "{(0, 0)}" ?g "(0, 2)"] by auto
  show ?thesis using h u C7_unreachable_end[OF h u] by simp
qed

section \<open>Claim C9: the backward walk ends\<close>

text \<open>
  Claim C9. On every rectangular grid with start and end in bounds, each of the five
  algorithms returns a result: its main loop ends, and so does the backward walk of
  getNodesInShortestPathOrder over the predecessors it has recorded (in the model a walk
  that runs forever has no value, so that no result would be returned). The walk meets
  no cell twice: the returned path is free of duplicates and lies within the visited
  order. For greedy, which overwrites the predecessor of a neighbour each time a newly
  expanded node discovers it, the statement is repeated on the state that its loop
  returns: the walk over that predecessor array returns a list.
\<close>

theorem C9_backward_walk_terminates:
  assumes "rectangular g" and "inBounds g s" and "inBounds g e"
  shows "everySearch g s e (\<lambda>vis ys. distinct ys \<and> set ys \<subseteq> set vis \<and> e \<notin> set ys)
       \<and> (\<exists>st ys. greedy_loop g e \<lparr>g_order = [], g_openSet = enqueue [] s 0, g_closedSet = {},
                                     g_previousNodes = newArray2 g None\<rparr> = Some st
             \<and> getNodesInShortestPathOrder (g_previousNodes st) e = Some ys \<and> distinct ys)"
proof
  show "everySearch g s e (\<lambda>vis ys. distinct ys \<and> set ys \<subseteq> set vis \<and> e \<notin> set ys)"
    by (rule everySearch_mono[OF everySearch_gfinal[OF assms]]) (simp add: gfinal_def)
  obtain r where r: "greedy (Some g) (Some s) (Some e) = Some r"
      "gfinal g s e (visitedNodesInOrder r) (shortestPath r)"
    using greedy_total[OF assms] by blast
  have v: "\<not> invalidInput (Some g) (Some s) (Some e)" using rectangular_valid[OF assms(1)] by simp
  obtain st where st: "greedy_loop g e \<lparr>g_order = [], g_openSet = enqueue [] s 0, g_closedSet = {},
        g_previousNodes = newArray2 g None\<rparr> = Some st"
      "Option.bind (getNodesInShortestPathOrder (g_previousNodes st) e)
         (\<lambda>path. Some \<lparr>visitedNodesInOrder = g_order st, shortestPath = path\<rparr>) = Some r"
    using r(1) v by (auto simp: greedy_def Let_def bind_eq_Some_conv)
  obtain ys where ys: "getNodesInShortestPathOrder (g_previousNodes st) e = Some ys"
      "r = \<lparr>visitedNodesInOrder = g_order st, shortestPath = ys\<rparr>"
    using st(2) by (auto simp: bind_eq_Some_conv)
  have "distinct ys" using r(2) ys(2) by (simp add: gfinal_def)
  then show "\<exists>st ys. greedy_loop g e \<lparr>g_order = [], g_openSet = enqueue [] s 0, g_closedSet = {},
                                     g_previousNodes = newArray2 g None\<rparr> = Some st
             \<and> getNodesInShortestPathOrder (g_previousNodes st) e = Some ys \<and> distinct ys"
    using st(1) ys(1) by blast
qed

theorem C9_backward_walk_terminates_witness:
  "rectangular (gridOf [[False, False, False], [False, True, False], [False, False, False]])
   \<and> inBounds (gridOf [[False, False, False], [False, True, False], [False, False, False]]) (0, 0)
   \<and> inBounds (gridOf [[False, False, False], [False, True, False], [False, False, False]]) (2, 2)
   \<and> everySearch (gridOf [[False, False, False], [False, True, False], [False, False, False]])
        (0, 0) (2, 2) (\<lambda>vis ys. distinct ys \<and> set ys \<subseteq> set vis \<and> (2, 2) \<notin> set ys)
   \<and> (\<exists>st ys. greedy_loop (gridOf [[False, False, False], [False, True, False], [False, False, False]])
          (2, 2) \<lparr>g_order = [], g_openSet = enqueue [] (0, 0) 0, g_closedSet = {},
                   g_previousNodes =
                     newArray2 (gridOf [[False, False, False], [False, True, False], [False, False, False]])
                       None\<rparr> = Some st
             \<and> getNodesInShortestPathOrder (g_previousNodes st) (2, 2) = Some ys \<and> distinct ys)"
proof -
  have h: "rectangular (gridOf [[False, False, False], [False, True, False], [False, False, False]])"
      "inBounds (gridOf [[False, False, False], [False, True, False], [False, False, False]]) (0, 0)"
      "inBounds (gridOf [[False, False, False], [False, True, False], [False, False, False]]) (2, 2)"
    by code_simp+
  show ?thesis using h C9_backward_walk_terminates[OF h] by simp
qed

section \<open>Claim C3: which cells the returned path holds\<close>

text \<open>
  Claim C3 (as stated: when a path to end is found, shortestPath runs from the first
  successor of start to end, and start is left out). On the grid of one row and two
  columns, bfs from (0, 0) to (0, 1) finds end; by the claim the path would be [(0, 1)].
  The backward walk begins at the predecessor of end and stops after the cell without
  predecessor, so the path returned is [(0, 0)]: it holds start and not end.
\<close>

theorem C3_path_shape_counterexample:
  "bfs (Some (createGridWithWalls 1 2)) (Some (0, 0)) (Some (0, 1)) =
     Some \<lparr>visitedNodesInOrder = [(0, 0), (0, 1)], shortestPath = [(0, 0)]\<rparr>"
  by code_simp

text \<open>
  Claim C3, amended. On every rectangular grid with start and end in bounds, each of the
  five algorithms returns a path that is non-empty exactly when end differs from start
  and can be reached from it. A non-empty path is the ordered sequence of cells from
  start to the predecessor of end: its first cell is start, end is not in it, and the
  path followed by end is a sequence of moves, each into a neighbouring cell of the grid
  that is not a wall.
\<close>

theorem C3_path_from_start_to_predecessor_of_end:
  assumes "rectangular g" and "inBounds g s" and "inBounds g e"
  shows "everySearch g s e
           (\<lambda>vis ys. (ys \<noteq> [] \<longleftrightarrow> reachable g s e \<and> e \<noteq> s)
              \<and> (ys \<noteq> [] \<longrightarrow> hd ys = s \<and> e \<notin> set ys \<and> (\<exists>ws. ys @ [e] = s # ws \<and> walk g s ws)))"
proof (rule everySearch_mono[OF everySearch_gfinal[OF assms]])
  fix vis ys assume f: "gfinal g s e vis ys"
  have 1: "ys \<noteq> [] \<longleftrightarrow> reachable g s e \<and> e \<noteq> s" and 2: "e \<notin> set ys"
    and 3: "ys \<noteq> [] \<longrightarrow> (\<exists>ws. ys @ [e] = s # ws \<and> walk g s ws)"
    using f unfolding gfinal_def by blast+
  have "hd ys = s" if ne: "ys \<noteq> []"
  proof -
    obtain ws where "ys @ [e] = s # ws" using 3 ne by blast
    then show ?thesis using ne by (cases ys) simp_all
  qed
  then show "(ys \<noteq> [] \<longleftrightarrow> reachable g s e \<and> e \<noteq> s)
        \<and> (ys \<noteq> [] \<longrightarrow> hd ys = s \<and> e \<notin> set ys \<and> (\<exists>ws. ys @ [e] = s # ws \<and> walk g s ws))"
    using 1 2 3 by blast
qed

theorem C3_path_from_start_to_predecessor_of_end_witness:
  "rectangular (gridOf [[False, True], [False, False]])
   \<and> inBounds (gridOf [[False, True], [False, False]]) (0, 0)
   \<and> inBounds (gridOf [[False, True], [False, False]]) (1, 1)
   \<and> everySearch (gridOf [[False, True], [False, False]]) (0, 0) (1, 1)
        (\<lambda>vis ys. (ys \<noteq> [] \<longleftrightarrow> reachable (gridOf [[False, True], [False, False]]) (0, 0) (1, 1)
                                \<and> (1, 1) \<noteq> ((0, 0) :: coord))
           \<and> (ys \<noteq> [] \<longrightarrow> hd ys = (0, 0) \<and> (1, 1) \<notin> set ys
                 \<and> (\<exists>ws. ys @ [(1, 1)] = (0, 0) # ws
                       \<and> walk (gridOf [[False, True], [False, False]]) (0, 0) ws)))"
proof -
  have h: "rectangular (gridOf [[False, True], [False, False]])"
      "inBounds (gridOf [[False, True], [False, False]]) (0, 0)"
      "inBounds (gridOf [[False, True], [False, False]]) (1, 1)"
    by code_simp+
  show ?thesis using h C3_path_from_start_to_predecessor_of_end[OF h] by simp
qed

section \<open>Claim C2: grids without walls\<close>

text \<open>
  Claim C2 (as stated: on a grid without walls and with start different from end, all
  five algorithms return a path whose length is the Manhattan distance). On the grid of
  three rows and three columns without walls, dfs from (0, 0) to (2, 0) takes the
  neighbour pushed last first, runs along the top row and down the right column, and
  returns a path of 6 cells; the Manhattan distance is 2.
\<close>

theorem C2_dfs_counterexample:
  "noWalls (createGridWithWalls 3 3)
   \<and> dfs (Some (createGridWithWalls 3 3)) (Some (0, 0)) (Some (2, 0)) =
       Some \<lparr>visitedNodesInOrder = [(0, 0), (0, 1), (0, 2), (1, 2), (2, 2), (2, 1), (2, 0)],
             shortestPath = [(0, 0), (0, 1), (0, 2), (1, 2), (2, 2), (2, 1)]\<rparr>
   \<and> manhattanDistance (0, 0) (2, 0) = 2"
  by code_simp

text \<open>
  Claim C2, amended. On every rectangular grid without walls, with start and end in
  bounds and different, each of the five algorithms returns a non-empty path. For
  dijkstra, bfs, astar and greedy the length of the path is the Manhattan distance
  between start and end; for dfs it is at least that distance.
\<close>

theorem C2_wall_free_grid:
  assumes "rectangular g" and "noWalls g" and "inBounds g s" and "inBounds g e" and "s \<noteq> e"
  shows "(\<exists>r. dijkstra (Some g) (Some s) (Some e) = Some r \<and> shortestPath r \<noteq> []
              \<and> length (shortestPath r) = manhattanDistance s e)
       \<and> (\<exists>r. bfs (Some g) (Some s) (Some e) = Some r \<and> shortestPath r \<noteq> []
              \<and> length (shortestPath r) = manhattanDistance s e)
       \<and> (\<exists>r. astar (Some g) (Some s) (Some e) = Some r \<and> shortestPath r \<noteq> []
              \<and> length (shortestPath r) = manhattanDistance s e)
       \<and> (\<exists>r. greedy (Some g) (Some s) (Some e) = Some r \<and> shortestPath r \<noteq> []
              \<and> length (shortestPath r) = manhattanDistance s e)
       \<and> (\<exists>r. dfs (Some g) (Some s) (Some e) = Some r \<and> shortestPath r \<noteq> []
              \<and> manhattanDistance s e \<le> length (shortestPath r))"
proof -
  note a = assms(1,3,4)
  obtain direct where direct: "route g s direct e" "length direct = manhattanDistance s e"
    using noWalls_route[OF assms(1,2,4,3)] by blast
  have re: "reachable g s e" using direct(1) unfolding reachable_def by blast
  have ne: "ys \<noteq> []" if "gfinal g s e vis ys" for vis ys
    using that re assms(5) unfolding gfinal_def by auto
  have lo: "manhattanDistance s e \<le> length ys" if f: "gfinal g s e vis ys" for vis ys
  proof -
    obtain ws where "route g s ws e" "length ws = length ys" using gfinal_route[OF f re] by blast
    then show ?thesis using route_manhattan[of g s ws e] by simp
  qed
  have vis: "e \<in> set vis" if "gfinal g s e vis ys" for vis ys
    using that re unfolding gfinal_def by blast
  obtain rd where rd: "dijkstra (Some g) (Some s) (Some e) = Some rd"
      "gfinal g s e (visitedNodesInOrder rd) (shortestPath rd)"
      "\<forall>ws. route g s ws e \<longrightarrow> length (shortestPath rd) \<le> length ws"
    using dijkstra_total[OF a] by blast
  have "length (shortestPath rd) \<le> manhattanDistance s e" using rd(3) direct by auto
  then have 1: "length (shortestPath rd) = manhattanDistance s e" using lo[OF rd(2)] by simp
  obtain rb where rb: "bfs (Some g) (Some s) (Some e) = Some rb"
      "gfinal g s e (visitedNodesInOrder rb) (shortestPath rb)"
      "\<forall>ws. route g s ws e \<longrightarrow> length (shortestPath rb) \<le> length ws"
    using bfs_total[OF a] by blast
  have "length (shortestPath rb) \<le> manhattanDistance s e" using rb(3) direct by auto
  then have 2: "length (shortestPath rb) = manhattanDistance s e" using lo[OF rb(2)] by simp
  obtain ra where ra: "astar (Some g) (Some s) (Some e) = Some ra"
      "gfinal g s e (visitedNodesInOrder ra) (shortestPath ra)"
      "noWalls g \<longrightarrow> e \<in> set (visitedNodesInOrder ra)
          \<longrightarrow> length (shortestPath ra) = manhattanDistance s e"
    using astar_total[OF a] by blast
  have 3: "length (shortestPath ra) = manhattanDistance s e" using ra(3) assms(2) vis[OF ra(2)] by simp
  obtain rg where rg: "greedy (Some g) (Some s) (Some e) = Some rg"
      "gfinal g s e (visitedNodesInOrder rg) (shortestPath rg)"
      "noWalls g \<longrightarrow> e \<in> set (visitedNodesInOrder rg)
          \<longrightarrow> length (shortestPath rg) = manhattanDistance s e"
    using greedy_total[OF a] by blast
  have 4: "length (shortestPath rg) = manhattanDistance s e" using rg(3) assms(2) vis[OF rg(2)] by simp
  obtain rf where rf: "dfs (Some g) (Some s) (Some e) = Some rf"
      "gfinal g s e (visitedNodesInOrder rf) (shortestPath rf)"
    using dfs_total[OF a] by blast
  show ?thesis
    using rd(1) ne[OF rd(2)] 1 rb(1) ne[OF rb(2)] 2 ra(1) ne[OF ra(2)] 3 rg(1) ne[OF rg(2)] 4
      rf(1) ne[OF rf(2)] lo[OF rf(2)]
    by simp
qed

theorem C2_wall_free_grid_witness:
  "rectangular (createGridWithWalls 3 3) \<and> noWalls (createGridWithWalls 3 3)
   \<and> inBounds (createGridWithWalls 3 3) (0, 0) \<and> inBounds (createGridWithWalls 3 3) (2, 0)
   \<and> (0, 0) \<noteq> ((2, 0) :: coord)
   \<and> (\<exists>r. dijkstra (Some (createGridWithWalls 3 3)) (Some (0, 0)) (Some (2, 0)) = Some r
          \<and> shortestPath r \<noteq> [] \<and> length (shortestPath r) = manhattanDistance (0, 0) (2, 0))
   \<and> (\<exists>r. bfs (Some (createGridWithWalls 3 3)) (Some (0, 0)) (Some (2, 0)) = Some r
          \<and> shortestPath r \<noteq> [] \<and> length (shortestPath r) = manhattanDistance (0, 0) (2, 0))
   \<and> (\<exists>r. astar (Some (createGridWithWalls 3 3)) (Some (0, 0)) (Some (2, 0)) = Some r
          \<and> shortestPath r \<noteq> [] \<and> length (shortestPath r) = manhattanDistance (0, 0) (2, 0))
   \<and> (\<exists>r. greedy (Some (createGridWithWalls 3 3)) (Some (0, 0)) (Some (2, 0)) = Some r
          \<and> shortestPath r \<noteq> [] \<and> length (shortestPath r) = manhattanDistance (0, 0) (2, 0))
   \<and> (\<exists>r. dfs (Some (createGridWithWalls 3 3)) (Some (0, 0)) (Some (2, 0)) = Some r
          \<and> shortestPath r \<noteq> [] \<and> manhattanDistance (0, 0) (2, 0) \<le> length (shortestPath r))"
proof -
  have h: "rectangular (createGridWithWalls 3 3)" "noWalls (createGridWithWalls 3 3)"
      "inBounds (createGridWithWalls 3 3) (0, 0)" "inBounds (createGridWithWalls 3 3) (2, 0)"
    by code_simp+
  have d: "(0, 0) \<noteq> ((2, 0) :: coord)" by simp
  show ?thesis using h d C2_wall_free_grid[OF h d] by blast
qed

end
